theory Spec2Isabelle
  imports Main "HOL-Library.Sublist" "HOL-Library.AList"
begin

section \<open>Strings and the regular expressions of main.ts\<close>

text \<open>
  A JavaScript string is modelled as a \<^typ>\<open>string\<close>, one \<^typ>\<open>char\<close> per code unit, so
  the strings of the model are those whose code units are below 256 (ISO 8859-1). On
  these code units the definitions below are the classes and functions the source uses:
  \<^verbatim>\<open>\w\<close> is ASCII only, \<^verbatim>\<open>\s\<close> and \<^verbatim>\<open>trim()\<close> take the ASCII white space and the
  no-break space U+00A0, and \<^verbatim>\<open>toLowerCase()\<close> folds \<^verbatim>\<open>A\<close> to \<^verbatim>\<open>Z\<close> and the capital
  letters U+00C0 to U+00DE (U+00D7, the multiplication sign, is no letter).
\<close>

text \<open>The code units \<^verbatim>\<open>toLowerCase()\<close> changes; each is folded by adding 32.\<close>

definition isUpper :: "char \<Rightarrow> bool" where
  "isUpper c =
     ((65 \<le> (of_char c :: nat) \<and> (of_char c :: nat) \<le> 90) \<or>
      (192 \<le> (of_char c :: nat) \<and> (of_char c :: nat) \<le> 222 \<and> (of_char c :: nat) \<noteq> 215))"

fun toLowerChar :: "char \<Rightarrow> char" where
  "toLowerChar (Char b0 b1 b2 b3 b4 b5 b6 b7) =
     (if isUpper (Char b0 b1 b2 b3 b4 b5 b6 b7) then Char b0 b1 b2 b3 b4 True b6 b7
      else Char b0 b1 b2 b3 b4 b5 b6 b7)"

definition toLowerCase :: "string \<Rightarrow> string" where
  "toLowerCase s = map toLowerChar s"

text \<open>
  White space of \<^verbatim>\<open>\s\<close> and of \<^verbatim>\<open>trim()\<close>: tab, LF, VT, FF, CR, space and the
  no-break space.
\<close>

definition isSpace :: "char \<Rightarrow> bool" where
  "isSpace c = (c \<in> set [CHR 0x09, CHR 0x0A, CHR 0x0B, CHR 0x0C, CHR 0x0D, CHR 0x20, CHR 0xA0])"

text \<open>\<^verbatim>\<open>\w\<close>: letters, digits and the underscore.\<close>

definition isWordChar :: "char \<Rightarrow> bool" where
  "isWordChar c =
     (let n = (of_char c :: nat)
      in (48 \<le> n \<and> n \<le> 57) \<or> (65 \<le> n \<and> n \<le> 90) \<or> (97 \<le> n \<and> n \<le> 122) \<or> n = 95)"

text \<open>The class \<^verbatim>\<open>[\w\s\-_]\<close> of the fragment expression.\<close>

definition isFragmentChar :: "char \<Rightarrow> bool" where
  "isFragmentChar c = (isWordChar c \<or> isSpace c \<or> c = CHR ''-'')"

text \<open>
  The class of the word-completion test in \<^verbatim>\<open>handleEditorChange\<close>: white space and
  the punctuation \<^verbatim>\<open>.,!?;:()[]{}|\/<>@#$%^&*+=~`"'-\<close>.
\<close>

definition isDelimiter :: "char \<Rightarrow> bool" where
  "isDelimiter c =
     (isSpace c \<or>
      c \<in> set (''.,!?;:()[]{}|/<>@#$%^&*+=~-'' @ [CHR 0x5C, CHR 0x60, CHR 0x22, CHR 0x27]))"

definition trim :: "string \<Rightarrow> string" where
  "trim s = rev (dropWhile isSpace (rev (dropWhile isSpace s)))"

text \<open>
  \<^verbatim>\<open>s.match(/[\w\s\-_]+$/)\<close>: the longest suffix of \<open>s\<close> made of fragment
  characters, \<open>None\<close> (JavaScript \<^verbatim>\<open>null\<close>) when that suffix is empty.
\<close>

definition matchFragment :: "string \<Rightarrow> string option" where
  "matchFragment s =
     (let m = rev (takeWhile isFragmentChar (rev s))
      in if m = [] then None else Some m)"

text \<open>\<^verbatim>\<open>str[i]\<close>: \<open>None\<close> (\<^verbatim>\<open>undefined\<close>) out of range.\<close>

definition charAt :: "string \<Rightarrow> nat \<Rightarrow> char option" where
  "charAt str i = (if i < length str then Some (str ! i) else None)"

text \<open>
  \<^verbatim>\<open>(s.match(/\[\[/g) || []).length\<close> and its sibling for \<^verbatim>\<open>]]\<close>: the number
  of matches of two consecutive \<open>c\<close>, found from left to right without overlap.
\<close>

fun countPairs :: "char \<Rightarrow> string \<Rightarrow> nat" where
  "countPairs c (x # y # rest) =
     (if x = c \<and> y = c then Suc (countPairs c rest) else countPairs c (y # rest))"
| "countPairs c [x] = 0"
| "countPairs c [] = 0"

text \<open>\<^verbatim>\<open>s.lastIndexOf(c)\<close> for a single character: \<open>-1\<close> when \<open>c\<close> is absent.\<close>

definition lastIndexOfChar :: "char \<Rightarrow> string \<Rightarrow> int" where
  "lastIndexOfChar c s =
     (if c \<in> set s then int (length s) - 1 - int (length (takeWhile (\<lambda>x. x \<noteq> c) (rev s)))
      else - 1)"

text \<open>\<^verbatim>\<open>s.includes(pat)\<close>.\<close>

fun includesStr :: "string \<Rightarrow> string \<Rightarrow> bool" where
  "includesStr [] pat = (pat = [])"
| "includesStr (c # cs) pat = (prefix pat (c # cs) \<or> includesStr cs pat)"

text \<open>
  \<^verbatim>\<open>s.lastIndexOf(pat)\<close> for a string: the last index at which \<open>pat\<close> starts,
  \<open>None\<close> for JavaScript's \<open>-1\<close>.
\<close>

definition lastIndexOf :: "string \<Rightarrow> string \<Rightarrow> nat option" where
  "lastIndexOf s pat =
     (case filter (\<lambda>i. prefix pat (drop i s)) (rev [0..<Suc (length s)]) of
        [] \<Rightarrow> None
      | i # _ \<Rightarrow> Some i)"

text \<open>
  The replacement patterns of \<^verbatim>\<open>String.prototype.replace\<close> for an expression without
  groups: \<^verbatim>\<open>$$\<close>, \<^verbatim>\<open>$&\<close>, \<^verbatim>\<open>$`\<close> and \<^verbatim>\<open>$'\<close>.
\<close>

fun expandReplacement :: "string \<Rightarrow> string \<Rightarrow> string \<Rightarrow> string \<Rightarrow> string" where
  "expandReplacement matched pre post (d # c # rest) =
     (if d = CHR ''$'' \<and> c = CHR ''$'' then CHR ''$'' # expandReplacement matched pre post rest
      else if d = CHR ''$'' \<and> c = CHR ''&'' then matched @ expandReplacement matched pre post rest
      else if d = CHR ''$'' \<and> c = CHR 0x60 then pre @ expandReplacement matched pre post rest
      else if d = CHR ''$'' \<and> c = CHR 0x27 then post @ expandReplacement matched pre post rest
      else d # expandReplacement matched pre post (c # rest))"
| "expandReplacement matched pre post [d] = [d]"
| "expandReplacement matched pre post [] = []"

text \<open>
  \<^verbatim>\<open>line.replace(new RegExp(`${this.escapeRegex(typed)}$`), link)\<close>: the escaped
  expression matches \<open>typed\<close> literally, and only at the end of the line.
\<close>

definition replaceAtEnd :: "string \<Rightarrow> string \<Rightarrow> string \<Rightarrow> string" where
  "replaceAtEnd lineText typed link =
     (if suffix typed lineText
      then (let pre = take (length lineText - length typed) lineText
            in pre @ expandReplacement typed pre [] link)
      else lineText)"

text \<open>
  \<^verbatim>\<open>/\[\[([^|\]]+)(?:\|[^\]]+)?\]\]/\<close> anchored at the start of \<open>s\<close>: the length of
  the match and its first group. Both repetitions are greedy and what follows each of
  them excludes the characters it repeats, so backtracking finds nothing more.
\<close>

definition matchLinkAt :: "string \<Rightarrow> (nat \<times> string) option" where
  "matchLinkAt s =
     (if prefix ''[['' s
      then (let rest = drop 2 s;
                base = takeWhile (\<lambda>c. c \<noteq> CHR ''|'' \<and> c \<noteq> CHR '']'') rest;
                r1 = dropWhile (\<lambda>c. c \<noteq> CHR ''|'' \<and> c \<noteq> CHR '']'') rest
            in if base = [] then None
               else if prefix '']]'' r1 then Some (length base + 4, base)
               else if prefix ''|'' r1
               then (let lab = takeWhile (\<lambda>c. c \<noteq> CHR '']'') (drop 1 r1);
                         r2 = dropWhile (\<lambda>c. c \<noteq> CHR '']'') (drop 1 r1)
                     in if lab \<noteq> [] \<and> prefix '']]'' r2
                        then Some (length base + length lab + 5, base)
                        else None)
               else None)
      else None)"

text \<open>
  The \<^verbatim>\<open>while ((match = linkRegex.exec(currentLine)) !== null)\<close> loop with the
  global flag: every match as (index, length, first group), the search resuming where
  the previous match ended (\<open>skip\<close> characters of a match are still to pass).
\<close>

fun scanLinks :: "nat \<Rightarrow> nat \<Rightarrow> string \<Rightarrow> (nat \<times> nat \<times> string) list" where
  "scanLinks i skip [] = []"
| "scanLinks i skip (c # cs) =
     (if skip > 0 then scanLinks (Suc i) (skip - 1) cs
      else (case matchLinkAt (c # cs) of
              Some (n, base) \<Rightarrow> (i, n, base) # scanLinks (Suc i) (n - 1) cs
            | None \<Rightarrow> scanLinks (Suc i) 0 cs))"

definition linkMatches :: "string \<Rightarrow> (nat \<times> nat \<times> string) list" where
  "linkMatches lineText = scanLinks 0 0 lineText"

text \<open>\<^verbatim>\<open>xs.slice(0, n)\<close>: a negative \<open>n\<close> counts from the end.\<close>

definition sliceTo :: "'a list \<Rightarrow> int \<Rightarrow> 'a list" where
  "sliceTo xs n = (if n < 0 then take (nat (int (length xs) + n)) xs else take (nat n) xs)"

section \<open>The data of the plugin\<close>

datatype Mode = autonomous | semiAutonomous | suggestions | custom

record AutoLinkSettings =
  mode :: Mode
  minWordLength :: int
  caseSensitive :: bool
  includeAliases :: bool
  customFolders :: "string list"
  debounceMs :: int
  maxSuggestions :: int
  customAllowEnterAccept :: bool
  customAutoInsertSingleMatch :: bool

definition DEFAULT_SETTINGS :: AutoLinkSettings where
  "DEFAULT_SETTINGS =
     \<lparr>mode = autonomous, minWordLength = 3, caseSensitive = False, includeAliases = True,
      customFolders = [], debounceMs = 300, maxSuggestions = 10,
      customAllowEnterAccept = True, customAutoInsertSingleMatch = True\<rparr>"

text \<open>
  A \<^verbatim>\<open>TFile\<close> of the host: two files are the same object exactly when they are the
  same record. \<open>parent\<close> is the path of the folder that holds the file.
\<close>

record TFile =
  path :: string
  basename :: string
  parent :: string

text \<open>The candidate \<^verbatim>\<open>{ title, file, isAlias }\<close>; its field \<^verbatim>\<open>file\<close> is \<open>tfile\<close>.\<close>

record Match =
  title :: string
  tfile :: TFile
  isAlias :: bool

record Pos =
  line :: nat
  ch :: nat

text \<open>An entry of \<^verbatim>\<open>undoStack\<close>; its fields \<^verbatim>\<open>line\<close> and \<^verbatim>\<open>cursor\<close> are \<open>uline\<close> and \<open>ucursor\<close>.\<close>

record UndoRecord =
  uline :: nat
  original :: string
  ucursor :: Pos
  timestamp :: int
  linkText :: string

text \<open>
  Modelled from the spec: the host editor, which is not code of this repository. The spec
  gives it as a mutable text buffer addressable by (line, column) with get/set-line and
  get/set-cursor operations.
\<close>

record Editor =
  lines :: "nat \<Rightarrow> string"
  cursor :: Pos

text \<open>
  Modelled from the spec: the plugin computes the column it passes to \<^verbatim>\<open>setCursor\<close>
  over the integers, and the cursor the buffer then holds is at one of its columns, which
  count from 0. \<open>toColumn\<close> is that column: the number itself, and column 0 for a
  number below 0, a case for which neither the source nor the spec says what the host does.
\<close>

definition toColumn :: "int \<Rightarrow> nat" where
  "toColumn n = nat n"

text \<open>The properties the suggestion popup is mounted with.\<close>

record Popup =
  popupMatches :: "Match list"
  popupTyped :: string
  allowEnterAccept :: bool

text \<open>
  The writes of the engine, in the order the statements of the source perform them. The
  state keeps them in \<open>trace\<close>, a history that no function of the plugin reads.
\<close>

datatype Effect =
    PushUndo UndoRecord
  | ShiftUndo
  | PopUndo
  | SetLine nat string
  | SetCursor Pos

text \<open>
  The fields of \<^verbatim>\<open>AutoLinkPlugin\<close>, the editor it works on, whether the host fails to
  mount a popup, and the history of writes. \<^verbatim>\<open>noteTitles\<close> and \<^verbatim>\<open>aliases\<close> are
  JavaScript \<^verbatim>\<open>Map\<close>s: association lists in insertion order. \<^verbatim>\<open>disableTimeout\<close>
  holds the time at which the pending timer fires.
\<close>

record State =
  settings :: AutoLinkSettings
  noteTitles :: "(string \<times> TFile) list"
  aliases :: "(string \<times> TFile) list"
  popup :: "Popup option"
  undoStack :: "UndoRecord list"
  pendingMatches :: "string \<Rightarrow> Match list option"
  isAutoLinkDisabled :: bool
  disableTimeout :: "int option"
  editor :: Editor
  mountFails :: bool
  trace :: "Effect list"

section \<open>The editor and the undo stack\<close>

definition getLine :: "State \<Rightarrow> nat \<Rightarrow> string" where
  "getLine s n = lines (editor s) n"

definition getCursor :: "State \<Rightarrow> Pos" where
  "getCursor s = cursor (editor s)"

definition setLine :: "nat \<Rightarrow> string \<Rightarrow> State \<Rightarrow> State" where
  "setLine n text s =
     s\<lparr>editor := (editor s)\<lparr>lines := (lines (editor s))(n := text)\<rparr>,
       trace := trace s @ [SetLine n text]\<rparr>"

definition setCursor :: "Pos \<Rightarrow> State \<Rightarrow> State" where
  "setCursor p s = s\<lparr>editor := (editor s)\<lparr>cursor := p\<rparr>, trace := trace s @ [SetCursor p]\<rparr>"

text \<open>\<^verbatim>\<open>undoStack.push(r)\<close>, \<^verbatim>\<open>undoStack.shift()\<close> and \<^verbatim>\<open>undoStack.pop()\<close>.\<close>

definition undoPush :: "UndoRecord \<Rightarrow> State \<Rightarrow> State" where
  "undoPush r s = s\<lparr>undoStack := undoStack s @ [r], trace := trace s @ [PushUndo r]\<rparr>"

definition undoShift :: "State \<Rightarrow> State" where
  "undoShift s = s\<lparr>undoStack := tl (undoStack s), trace := trace s @ [ShiftUndo]\<rparr>"

definition undoPop :: "State \<Rightarrow> State" where
  "undoPop s = s\<lparr>undoStack := butlast (undoStack s), trace := trace s @ [PopUndo]\<rparr>"

definition closePopup :: "State \<Rightarrow> State" where
  "closePopup s = s\<lparr>popup := None\<rparr>"

text \<open>\<^verbatim>\<open>this.pendingMatches.clear()\<close>.\<close>

definition clearPending :: "State \<Rightarrow> State" where
  "clearPending s = s\<lparr>pendingMatches := (\<lambda>k. None)\<rparr>"

section \<open>The title index\<close>

text \<open>
  Modelled from the spec: the host's vault and metadata cache, which are not code of this
  repository: the markdown files of the collection, the alias metadata of each file and
  the active file. An alias value that is not a string is \<open>JsOther\<close>.
\<close>

datatype JsValue = JsString string | JsOther

datatype FrontAliases = NoAliases | OneAlias JsValue | AliasArray "JsValue list"

record Vault =
  markdownFiles :: "TFile list"
  fileCache :: "TFile \<Rightarrow> FrontAliases"
  activeFile :: "TFile option"

definition getRelevantFiles :: "Vault \<Rightarrow> State \<Rightarrow> TFile list" where
  "getRelevantFiles vault s =
     (let allFiles = markdownFiles vault
      in if mode (settings s) = semiAutonomous
         then (case activeFile vault of
                 None \<Rightarrow> allFiles
               | Some active \<Rightarrow> filter (\<lambda>f. parent f = parent active) allFiles)
         else if mode (settings s) = custom \<and> length (customFolders (settings s)) > 0
         then filter (\<lambda>f. list_ex (\<lambda>folder.
                  prefix (if folder = ''/'' then [] else folder @ ''/'') (path f))
                (customFolders (settings s))) allFiles
         else allFiles)"

text \<open>
  \<^verbatim>\<open>Array.isArray(a) ? a : [a]\<close> under the guard \<^verbatim>\<open>if (cache?.frontmatter?.aliases)\<close>:
  an absent value and the empty string are falsy. A value that is not a string adds no
  alias whether it is truthy or not.
\<close>

fun aliasValues :: "FrontAliases \<Rightarrow> JsValue list" where
  "aliasValues NoAliases = []"
| "aliasValues (OneAlias v) = (if v = JsString [] then [] else [v])"
| "aliasValues (AliasArray vs) = vs"

text \<open>The inner \<^verbatim>\<open>aliases.forEach\<close>; \<^verbatim>\<open>Map.set\<close> is \<open>AList.update\<close>.\<close>

fun addAliases :: "bool \<Rightarrow> TFile \<Rightarrow> JsValue list \<Rightarrow> (string \<times> TFile) list \<Rightarrow> (string \<times> TFile) list" where
  "addAliases cs f [] al = al"
| "addAliases cs f (JsString a # rest) al =
     addAliases cs f rest
       (if trim a \<noteq> [] then AList.update (if cs then a else toLowerCase a) f al else al)"
| "addAliases cs f (JsOther # rest) al = addAliases cs f rest al"

text \<open>The outer \<^verbatim>\<open>files.forEach\<close> of \<^verbatim>\<open>updateNoteList\<close>.\<close>

fun indexFiles :: "AutoLinkSettings \<Rightarrow> (TFile \<Rightarrow> FrontAliases) \<Rightarrow> TFile list \<Rightarrow>
    (string \<times> TFile) list \<times> (string \<times> TFile) list \<Rightarrow> (string \<times> TFile) list \<times> (string \<times> TFile) list" where
  "indexFiles st cache [] (ts, al) = (ts, al)"
| "indexFiles st cache (f # fs) (ts, al) =
     indexFiles st cache fs
       (AList.update (if caseSensitive st then basename f else toLowerCase (basename f)) f ts,
        if includeAliases st then addAliases (caseSensitive st) f (aliasValues (cache f)) al
        else al)"

definition updateNoteList :: "Vault \<Rightarrow> State \<Rightarrow> State" where
  "updateNoteList vault s =
     (let files = getRelevantFiles vault s;
          idx = indexFiles (settings s) (fileCache vault) files ([], [])
      in s\<lparr>noteTitles := fst idx, aliases := snd idx\<rparr>)"

section \<open>The detector and the resolver\<close>

definition isInsideLink :: "string \<Rightarrow> nat \<Rightarrow> bool" where
  "isInsideLink lineText c =
     (let beforeCursor = take c lineText;
          afterCursor = drop c lineText;
          openBrackets = countPairs (CHR ''['') beforeCursor;
          closeBrackets = countPairs (CHR '']'') beforeCursor
      in if openBrackets > closeBrackets then True
         else (let lastOpenBracket = lastIndexOfChar (CHR ''['') beforeCursor;
                   lastCloseBracket = lastIndexOfChar (CHR '']'') beforeCursor
               in if lastOpenBracket > lastCloseBracket \<and> includesStr afterCursor ''](''
                  then True else False))"

text \<open>The first loop of \<^verbatim>\<open>findMatches\<close>, over \<^verbatim>\<open>noteTitles.entries()\<close>.\<close>

fun titleLoop :: "bool \<Rightarrow> string \<Rightarrow> string \<Rightarrow> (string \<times> TFile) list \<Rightarrow> Match list \<Rightarrow> Match list" where
  "titleLoop cs searchKey currentBasename [] matches = matches"
| "titleLoop cs searchKey currentBasename ((t, f) # rest) matches =
     titleLoop cs searchKey currentBasename rest
       (if t \<noteq> (if cs then currentBasename else toLowerCase currentBasename) \<and> prefix searchKey t
        then matches @ [\<lparr>title = basename f, tfile = f, isAlias = False\<rparr>]
        else matches)"

text \<open>The second loop, over \<^verbatim>\<open>aliases.entries()\<close>.\<close>

fun aliasLoop :: "string \<Rightarrow> string \<Rightarrow> (string \<times> TFile) list \<Rightarrow> Match list \<Rightarrow> Match list" where
  "aliasLoop searchKey currentBasename [] matches = matches"
| "aliasLoop searchKey currentBasename ((a, f) # rest) matches =
     aliasLoop searchKey currentBasename rest
       (if basename f \<noteq> currentBasename \<and> prefix searchKey a
        then (if find (\<lambda>m. tfile m = f) matches = None
              then matches @ [\<lparr>title = a, tfile = f, isAlias = True\<rparr>]
              else matches)
        else matches)"

definition findMatches :: "State \<Rightarrow> string \<Rightarrow> string \<Rightarrow> Match list" where
  "findMatches s typed currentBasename =
     (let searchKey = (if caseSensitive (settings s) then typed else toLowerCase typed);
          matches = titleLoop (caseSensitive (settings s)) searchKey currentBasename (noteTitles s) [];
          matches = aliasLoop searchKey currentBasename (aliases s) matches
      in sliceTo matches (maxSuggestions (settings s)))"

section \<open>Inserting links\<close>

text \<open>The template \<^verbatim>\<open>`[[${match.file.basename}${match.isAlias ? "|" + match.title : ""}]]`\<close>.\<close>

definition makeLink :: "Match \<Rightarrow> string" where
  "makeLink m = ''[['' @ basename (tfile m) @ (if isAlias m then ''|'' @ title m else []) @ '']]''"

definition insertLinkForCompletedWord :: "int \<Rightarrow> string \<Rightarrow> Match \<Rightarrow> nat \<Rightarrow> State \<Rightarrow> State" where
  "insertLinkForCompletedWord now completedWord m delimiterPos s =
     (let cur = getCursor s;
          lineText = getLine s (line cur);
          s = undoPush \<lparr>uline = line cur, original = lineText,
                        ucursor = \<lparr>line = line cur, ch = ch cur\<rparr>,
                        timestamp = now, linkText = basename (tfile m)\<rparr> s;
          link = makeLink m;
          beforeDelimiter = take delimiterPos lineText;
          wordStart = length beforeDelimiter - length completedWord;
          newLine = take wordStart lineText @ link @ drop delimiterPos lineText;
          s = setLine (line cur) newLine s;
          newCursorPos = wordStart + length link + 1;
          s = setCursor \<lparr>line = line cur, ch = min (length newLine) newCursorPos\<rparr> s
      in if length (undoStack s) > 10 then undoShift s else s)"

text \<open>
  In \<^verbatim>\<open>handleAutonomousMode\<close> the new column is \<^verbatim>\<open>cursor.ch - typed.length + link.length\<close>,
  a difference of integers.
\<close>

definition handleAutonomousMode :: "int \<Rightarrow> string \<Rightarrow> Match list \<Rightarrow> Pos \<Rightarrow> State \<Rightarrow> State" where
  "handleAutonomousMode now typed matches cur s =
     closePopup
       (if length matches = 1
        then (let m = matches ! 0;
                  lineText = getLine s (line cur);
                  s = undoPush \<lparr>uline = line cur, original = lineText,
                                ucursor = \<lparr>line = line cur, ch = ch cur\<rparr>,
                                timestamp = now, linkText = basename (tfile m)\<rparr> s;
                  link = makeLink m;
                  newLine = replaceAtEnd lineText typed link;
                  s = setLine (line cur) newLine s;
                  s = setCursor \<lparr>line = line cur,
                        ch = toColumn (int (ch cur) - int (length typed) + int (length link))\<rparr> s
              in if length (undoStack s) > 10 then undoShift s else s)
        else s)"

text \<open>
  \<^verbatim>\<open>showSuggestionPopup\<close>: when the host fails to mount the popup the error is caught
  and no popup is left.
\<close>

definition showSuggestionPopup :: "Match list \<Rightarrow> string \<Rightarrow> State \<Rightarrow> State" where
  "showSuggestionPopup matches typed s =
     (let s = closePopup s
      in if mountFails s then s
         else s\<lparr>popup := Some \<lparr>popupMatches = matches, popupTyped = typed,
                  allowEnterAccept =
                    (mode (settings s) = suggestions \<or>
                     (mode (settings s) = custom \<and> customAllowEnterAccept (settings s)))\<rparr>\<rparr>)"

definition handleSuggestionsMode :: "Match list \<Rightarrow> string \<Rightarrow> State \<Rightarrow> State" where
  "handleSuggestionsMode matches typed s =
     (if length matches > 0 then showSuggestionPopup matches typed s else closePopup s)"

text \<open>The \<^verbatim>\<open>for\<close> loop of \<^verbatim>\<open>findCommonPrefix\<close>, over the characters of the first string.\<close>

fun commonPrefixLoop :: "string list \<Rightarrow> string \<Rightarrow> nat \<Rightarrow> string \<Rightarrow> string" where
  "commonPrefixLoop strings [] i acc = acc"
| "commonPrefixLoop strings (c # rest) i acc =
     (if list_all (\<lambda>str. charAt str i = Some c) strings
      then commonPrefixLoop strings rest (Suc i) (acc @ [c])
      else acc)"

definition findCommonPrefix :: "string list \<Rightarrow> string" where
  "findCommonPrefix strings =
     (case strings of
        [] \<Rightarrow> []
      | firstString # _ \<Rightarrow> commonPrefixLoop strings firstString 0 [])"

definition acceptSuggestion :: "int \<Rightarrow> Match \<Rightarrow> string \<Rightarrow> State \<Rightarrow> State" where
  "acceptSuggestion now m typed s =
     (let cur = getCursor s;
          lineText = getLine s (line cur);
          s = undoPush \<lparr>uline = line cur, original = lineText,
                        ucursor = \<lparr>line = line cur, ch = ch cur\<rparr>,
                        timestamp = now, linkText = basename (tfile m)\<rparr> s;
          link = makeLink m;
          beforeCursor = take (ch cur) lineText;
          s = (case lastIndexOf beforeCursor typed of
                 None \<Rightarrow>
                   (let newLine = replaceAtEnd lineText typed link;
                        s = setLine (line cur) newLine s
                    in setCursor \<lparr>line = line cur,
                         ch = toColumn (min (int (length newLine))
                                (int (ch cur) - int (length typed) + int (length link)))\<rparr> s)
               | Some typedStartIndex \<Rightarrow>
                   (let newLine = take typedStartIndex lineText @ link
                          @ drop (typedStartIndex + length typed) lineText;
                        s = setLine (line cur) newLine s;
                        newCursorPos = typedStartIndex + length link
                    in setCursor \<lparr>line = line cur, ch = min (length newLine) newCursorPos\<rparr> s));
          s = closePopup s
      in if length (undoStack s) > 10 then undoShift s else s)"

section \<open>Undo\<close>

text \<open>The timer of \<^verbatim>\<open>temporarilyDisableAutoLink\<close> fires one second later, in \<open>timerFired\<close>.\<close>

definition temporarilyDisableAutoLink :: "int \<Rightarrow> State \<Rightarrow> State" where
  "temporarilyDisableAutoLink now s = s\<lparr>isAutoLinkDisabled := True, disableTimeout := Some (now + 1000)\<rparr>"

definition timerFired :: "State \<Rightarrow> State" where
  "timerFired s = s\<lparr>isAutoLinkDisabled := False, disableTimeout := None\<rparr>"

definition undoLastAutolink :: "State \<Rightarrow> State" where
  "undoLastAutolink s =
     (if length (undoStack s) = 0 then s
      else (let lastAction = last (undoStack s);
                s = undoPop s;
                s = setLine (uline lastAction) (original lastAction) s
            in setCursor (ucursor lastAction) s))"

text \<open>The \<^verbatim>\<open>editorCallback\<close> of the command \<^verbatim>\<open>undo-autolink\<close>.\<close>

definition undoCommand :: "int \<Rightarrow> State \<Rightarrow> State" where
  "undoCommand now s =
     (if length (undoStack s) > 0 then undoLastAutolink (temporarilyDisableAutoLink now s) else s)"

datatype Key = Backspace | Delete | OtherKey

text \<open>
  The loop over the links of the current line in the \<^verbatim>\<open>keydown\<close> handler. The second
  component of the result tells whether \<^verbatim>\<open>evt.preventDefault()\<close> was called.
\<close>

fun linkLoop :: "Key \<Rightarrow> int \<Rightarrow> Pos \<Rightarrow> UndoRecord \<Rightarrow> (nat \<times> nat \<times> string) list \<Rightarrow> State \<Rightarrow> State \<times> bool" where
  "linkLoop key now cur lastUndo [] s = (s, False)"
| "linkLoop key now cur lastUndo ((index, len, baseText) # rest) s =
     (if baseText = linkText lastUndo
      then (let linkStart = index;
                linkEnd = linkStart + len;
                isBackspaceNearLink = (key = Backspace \<and> ch cur > linkStart \<and> ch cur \<le> linkEnd);
                isDeleteNearLink = (key = Delete \<and> ch cur \<ge> linkStart \<and> ch cur < linkEnd)
            in if isBackspaceNearLink \<or> isDeleteNearLink
               then (let timeSinceAutoLink = now - timestamp lastUndo;
                         timeLimit = 30000
                     in if timestamp lastUndo = 0 \<or> timeSinceAutoLink \<le> timeLimit
                        then (undoLastAutolink (temporarilyDisableAutoLink now s), True)
                        else (s, False))
               else linkLoop key now cur lastUndo rest s)
      else linkLoop key now cur lastUndo rest s)"

text \<open>
  The \<^verbatim>\<open>keydown\<close> handler registered in \<^verbatim>\<open>onload\<close>. \<open>activeView\<close> tells whether
  the workspace has an active markdown view; its editor is the editor of the state.
\<close>

definition onKeydown :: "Key \<Rightarrow> int \<Rightarrow> bool \<Rightarrow> State \<Rightarrow> State \<times> bool" where
  "onKeydown key now activeView s =
     (if (key = Backspace \<or> key = Delete) \<and> length (undoStack s) > 0
      then (if activeView
            then (let cur = getCursor s;
                      lastUndo = last (undoStack s)
                  in if line cur = uline lastUndo \<and> linkText lastUndo \<noteq> []
                     then (let currentLine = getLine s (line cur)
                           in linkLoop key now cur lastUndo (linkMatches currentLine) s)
                     else (s, False))
            else (s, False))
      else (s, False))"

section \<open>The handler of editor changes\<close>

text \<open>The \<^verbatim>\<open>switch (this.settings.mode)\<close> that ends \<^verbatim>\<open>handleEditorChange\<close>.\<close>

definition modeSwitch :: "int \<Rightarrow> string \<Rightarrow> Match list \<Rightarrow> Pos \<Rightarrow> State \<Rightarrow> State" where
  "modeSwitch now typed matches cur s =
     (case mode (settings s) of
        autonomous \<Rightarrow> closePopup s
      | semiAutonomous \<Rightarrow> closePopup s
      | suggestions \<Rightarrow> handleSuggestionsMode matches typed s
      | custom \<Rightarrow>
          (if length matches = 1 \<and> customAutoInsertSingleMatch (settings s)
           then handleAutonomousMode now typed matches cur s
           else if length matches > 0 then handleSuggestionsMode matches typed s
           else closePopup s))"

text \<open>
  The word-completion branch (the \<^verbatim>\<open>if\<close> before the \<^verbatim>\<open>switch\<close>): \<open>Some\<close> of the
  state it returns with, \<open>None\<close> when control falls through to the \<^verbatim>\<open>switch\<close>.
\<close>

definition completionBranch :: "int \<Rightarrow> string \<Rightarrow> string \<Rightarrow> Pos \<Rightarrow> bool \<Rightarrow> State \<Rightarrow> State option" where
  "completionBranch now lineText currentBasename cur isWordCompleting s =
     (if (mode (settings s) = autonomous \<or> mode (settings s) = semiAutonomous) \<and> isWordCompleting
      then (let beforeDelimiter = take (ch cur - 1) lineText
            in case matchFragment beforeDelimiter of
                 None \<Rightarrow> None
               | Some wordMatch \<Rightarrow>
                   (let completedWord = trim wordMatch;
                        completedMatches = findMatches s completedWord currentBasename
                    in if length completedMatches = 1
                       then (let wasWaiting =
                                   (case pendingMatches s completedWord of
                                      None \<Rightarrow> False
                                    | Some pending \<Rightarrow> length pending > 1)
                             in if wasWaiting \<or> length completedMatches = 1
                                then Some (clearPending
                                       (insertLinkForCompletedWord now completedWord
                                          (completedMatches ! 0) (ch cur - 1) s))
                                else None)
                       else None))
      else None)"

text \<open>
  \<^verbatim>\<open>handleEditorChange(editor, view)\<close> for an editor and a view that exist;
  \<open>currentFile\<close> is \<^verbatim>\<open>view.file\<close>.
\<close>

definition handleEditorChange :: "int \<Rightarrow> TFile option \<Rightarrow> State \<Rightarrow> State" where
  "handleEditorChange now currentFile s =
     (if isAutoLinkDisabled s then s
      else (let cur = getCursor s;
                lineText = getLine s (line cur)
            in if isInsideLink lineText (ch cur) then s
               else (let beforeCursor = take (ch cur) lineText
                     in case matchFragment beforeCursor of
                          None \<Rightarrow> clearPending (closePopup s)
                        | Some fragment \<Rightarrow>
                            (let typed = trim fragment
                             in if int (length typed) < minWordLength (settings s)
                                then clearPending (closePopup s)
                                else (let currentBasename =
                                            (case currentFile of None \<Rightarrow> [] | Some f \<Rightarrow> basename f);
                                          matches = findMatches s typed currentBasename;
                                          s = s\<lparr>pendingMatches := (pendingMatches s)(typed \<mapsto> matches)\<rparr>;
                                          justTypedChar =
                                            (if ch cur > 0 then charAt lineText (ch cur - 1) else None);
                                          isWordCompleting =
                                            (case justTypedChar of None \<Rightarrow> False | Some c \<Rightarrow> isDelimiter c)
                                      in case completionBranch now lineText currentBasename cur
                                                isWordCompleting s of
                                           Some s' \<Rightarrow> s'
                                         | None \<Rightarrow> modeSwitch now typed matches cur s)))))"

text \<open>
  The variant the design notes of the spec propose: the completion branch with
  ``exactly one candidate at word completion'' as the sole trigger, the check of the
  earlier ambiguity dropped.
\<close>

definition completionBranch_soleTrigger :: "int \<Rightarrow> string \<Rightarrow> string \<Rightarrow> Pos \<Rightarrow> bool \<Rightarrow> State \<Rightarrow> State option" where
  "completionBranch_soleTrigger now lineText currentBasename cur isWordCompleting s =
     (if (mode (settings s) = autonomous \<or> mode (settings s) = semiAutonomous) \<and> isWordCompleting
      then (let beforeDelimiter = take (ch cur - 1) lineText
            in case matchFragment beforeDelimiter of
                 None \<Rightarrow> None
               | Some wordMatch \<Rightarrow>
                   (let completedWord = trim wordMatch;
                        completedMatches = findMatches s completedWord currentBasename
                    in if length completedMatches = 1
                       then Some (clearPending
                              (insertLinkForCompletedWord now completedWord
                                 (completedMatches ! 0) (ch cur - 1) s))
                       else None))
      else None)"

definition handleEditorChange_soleTrigger :: "int \<Rightarrow> TFile option \<Rightarrow> State \<Rightarrow> State" where
  "handleEditorChange_soleTrigger now currentFile s =
     (if isAutoLinkDisabled s then s
      else (let cur = getCursor s;
                lineText = getLine s (line cur)
            in if isInsideLink lineText (ch cur) then s
               else (let beforeCursor = take (ch cur) lineText
                     in case matchFragment beforeCursor of
                          None \<Rightarrow> clearPending (closePopup s)
                        | Some fragment \<Rightarrow>
                            (let typed = trim fragment
                             in if int (length typed) < minWordLength (settings s)
                                then clearPending (closePopup s)
                                else (let currentBasename =
                                            (case currentFile of None \<Rightarrow> [] | Some f \<Rightarrow> basename f);
                                          matches = findMatches s typed currentBasename;
                                          s = s\<lparr>pendingMatches := (pendingMatches s)(typed \<mapsto> matches)\<rparr>;
                                          justTypedChar =
                                            (if ch cur > 0 then charAt lineText (ch cur - 1) else None);
                                          isWordCompleting =
                                            (case justTypedChar of None \<Rightarrow> False | Some c \<Rightarrow> isDelimiter c)
                                      in case completionBranch_soleTrigger now lineText currentBasename
                                                cur isWordCompleting s of
                                           Some s' \<Rightarrow> s'
                                         | None \<Rightarrow> modeSwitch now typed matches cur s)))))"

section \<open>Runs of the plugin\<close>

text \<open>
  What can happen to a loaded plugin, one event at a time: the handlers the host calls,
  the link-inserting methods themselves, the timer, a rebuild of the index, and the user
  changing the text or the cursor of the editor.
\<close>

datatype Event =
    EditorChange int "TFile option"
  | KeyDown Key int bool
  | UndoCommand int
  | UndoLast
  | InsertCompleted int string Match nat
  | AutonomousInsert int string "Match list" Pos
  | AcceptSuggestion int Match string
  | TimerFired
  | Rebuild Vault
  | UserEdit Editor

fun step :: "Event \<Rightarrow> State \<Rightarrow> State" where
  "step (EditorChange now currentFile) s = handleEditorChange now currentFile s"
| "step (KeyDown key now activeView) s = fst (onKeydown key now activeView s)"
| "step (UndoCommand now) s = undoCommand now s"
| "step UndoLast s = undoLastAutolink s"
| "step (InsertCompleted now completedWord m delimiterPos) s =
     insertLinkForCompletedWord now completedWord m delimiterPos s"
| "step (AutonomousInsert now typed matches cur) s = handleAutonomousMode now typed matches cur s"
| "step (AcceptSuggestion now m typed) s = acceptSuggestion now m typed s"
| "step TimerFired s = timerFired s"
| "step (Rebuild vault) s = updateNoteList vault s"
| "step (UserEdit e) s = s\<lparr>editor := e\<rparr>"

fun run :: "Event list \<Rightarrow> State \<Rightarrow> State" where
  "run [] s = s"
| "run (ev # evs) s = run evs (step ev s)"

text \<open>The events that call a link-inserting method on a path that pushes a record.\<close>

fun isInsertion :: "Event \<Rightarrow> bool" where
  "isInsertion (InsertCompleted now completedWord m delimiterPos) = True"
| "isInsertion (AutonomousInsert now typed matches cur) = (length matches = 1)"
| "isInsertion (AcceptSuggestion now m typed) = True"
| "isInsertion ev = False"

text \<open>
  The record such an event is to capture: the line of the cursor, the text of that line
  and the cursor as they are before the event, the time of the event and the basename
  of the target.
\<close>

fun capturedRecord :: "Event \<Rightarrow> State \<Rightarrow> UndoRecord option" where
  "capturedRecord (InsertCompleted now completedWord m delimiterPos) s =
     Some \<lparr>uline = line (getCursor s), original = getLine s (line (getCursor s)),
           ucursor = getCursor s, timestamp = now, linkText = basename (tfile m)\<rparr>"
| "capturedRecord (AutonomousInsert now typed matches cur) s =
     (if length matches = 1
      then Some \<lparr>uline = line cur, original = getLine s (line cur),
                 ucursor = cur, timestamp = now, linkText = basename (tfile (matches ! 0))\<rparr>
      else None)"
| "capturedRecord (AcceptSuggestion now m typed) s =
     Some \<lparr>uline = line (getCursor s), original = getLine s (line (getCursor s)),
           ucursor = getCursor s, timestamp = now, linkText = basename (tfile m)\<rparr>"
| "capturedRecord ev s = None"

fun capturedAll :: "Event list \<Rightarrow> State \<Rightarrow> UndoRecord list" where
  "capturedAll [] s = []"
| "capturedAll (ev # evs) s =
     (case capturedRecord ev s of None \<Rightarrow> [] | Some r \<Rightarrow> [r]) @ capturedAll evs (step ev s)"

section \<open>States and inputs of the examples\<close>

text \<open>The plugin as its constructor leaves it, on a given editor.\<close>

definition initialState :: "Editor \<Rightarrow> State" where
  "initialState e =
     \<lparr>settings = DEFAULT_SETTINGS, noteTitles = [], aliases = [], popup = None, undoStack = [],
      pendingMatches = (\<lambda>k. None), isAutoLinkDisabled = False, disableTimeout = None,
      editor = e, mountFails = False, trace = []\<rparr>"

text \<open>The note \<open>name\<close> of the folder \<open>folder\<close> (the root folder is the empty path).\<close>

definition noteFile :: "string \<Rightarrow> string \<Rightarrow> TFile" where
  "noteFile folder name =
     \<lparr>path = (if folder = [] then [] else folder @ ''/'') @ name @ ''.md'',
      basename = name, parent = folder\<rparr>"

definition titleMatch :: "TFile \<Rightarrow> Match" where
  "titleMatch f = \<lparr>title = basename f, tfile = f, isAlias = False\<rparr>"

text \<open>An editor whose first line is \<^verbatim>\<open>Note \<close>, the cursor behind the space.\<close>

definition typingNote :: Editor where
  "typingNote = \<lparr>lines = (\<lambda>n. if n = 0 then ''Note '' else []), cursor = \<lparr>line = 0, ch = 5\<rparr>\<rparr>"

definition fifteenInsertions :: "Event list" where
  "fifteenInsertions =
     map (\<lambda>t. InsertCompleted t ''Note'' (titleMatch (noteFile [] ''Note'')) 4)
       [1, 2, 3, 4, 5, 6, 7, 8, 9, 10, 11, 12, 13, 14, 15]"

section \<open>Notions the statements use\<close>

text \<open>
  What \<^verbatim>\<open>undoStack.push(r)\<close> followed by
  \<^verbatim>\<open>if (this.undoStack.length > 10) this.undoStack.shift()\<close> makes of a stack.
\<close>

definition fifoPush :: "UndoRecord list \<Rightarrow> UndoRecord \<Rightarrow> UndoRecord list" where
  "fifoPush st r = (if length (st @ [r]) > 10 then tl (st @ [r]) else st @ [r])"

text \<open>
  Every \<open>SetLine n\<close> of a list of effects comes after a \<open>PushUndo\<close> of the same list
  whose record holds the number \<open>n\<close>, the text line \<open>n\<close> has in the state \<open>s\<close> and the
  cursor \<open>cur\<close>; \<open>seen\<close> are the effects already passed.
\<close>

fun capturedBefore :: "State \<Rightarrow> Pos \<Rightarrow> Effect list \<Rightarrow> Effect list \<Rightarrow> bool" where
  "capturedBefore s cur seen [] = True"
| "capturedBefore s cur seen (e # es) =
     ((case e of
         SetLine n newText \<Rightarrow>
           list_ex (\<lambda>e'. case e' of
                            PushUndo r \<Rightarrow> uline r = n \<and> original r = getLine s n \<and> ucursor r = cur
                          | _ \<Rightarrow> False) seen
       | _ \<Rightarrow> True)
      \<and> capturedBefore s cur (seen @ [e]) es)"

text \<open>The state after \<^verbatim>\<open>Note \<close> was linked at time 1000.\<close>

definition afterInsertion :: State where
  "afterInsertion =
     insertLinkForCompletedWord 1000 ''Note'' (titleMatch (noteFile [] ''Note'')) 4
       (initialState typingNote)"

text \<open>A vault of notes without aliases, no file active.\<close>

definition vaultOf :: "TFile list \<Rightarrow> Vault" where
  "vaultOf fs = \<lparr>markdownFiles = fs, fileCache = (\<lambda>f. NoAliases), activeFile = None\<rparr>"

text \<open>
  The plugin with its default settings after \<^verbatim>\<open>updateNoteList\<close>, the user having typed
  \<^verbatim>\<open>Note \<close> in the note \<^verbatim>\<open>Today\<close>: once in a vault where \<^verbatim>\<open>Note\<close> is the only title
  that starts so, once in a vault that also has \<^verbatim>\<open>Note with Space\<close>.
\<close>

definition noteOnly :: State where
  "noteOnly = updateNoteList (vaultOf [noteFile [] ''Note'', noteFile [] ''Today''])
     (initialState typingNote)"

definition noteAndLonger :: State where
  "noteAndLonger =
     updateNoteList (vaultOf [noteFile [] ''Note'', noteFile [] ''Note with Space'', noteFile [] ''Today''])
       (initialState typingNote)"


text \<open>
  A vault with the note \<^verbatim>\<open>Project Plan\<close>, indexed with the default settings and with
  case-sensitive matching.
\<close>

definition projectNotes :: State where
  "projectNotes =
     updateNoteList (vaultOf [noteFile [] ''Project Plan'', noteFile [] ''Today''])
       (initialState typingNote)"

definition projectNotesCaseSensitive :: State where
  "projectNotesCaseSensitive =
     updateNoteList (vaultOf [noteFile [] ''Project Plan'', noteFile [] ''Today''])
       ((initialState typingNote)\<lparr>settings := DEFAULT_SETTINGS\<lparr>caseSensitive := True\<rparr>\<rparr>)"

text \<open>
  A vault where \<^verbatim>\<open>Deep Work\<close> declares the aliases \<^verbatim>\<open>Focus\<close> and \<^verbatim>\<open>Flow\<close> (and a value
  that is no string) and another note is called \<^verbatim>\<open>Focus Time\<close>.
\<close>

definition focusVault :: Vault where
  "focusVault =
     \<lparr>markdownFiles = [noteFile [] ''Deep Work'', noteFile [] ''Focus Time'', noteFile [] ''Today''],
      fileCache = (\<lambda>f. if basename f = ''Deep Work''
                        then AliasArray [JsString ''Focus'', JsOther, JsString ''Flow'']
                        else NoAliases),
      activeFile = None\<rparr>"

definition focusNotes :: State where
  "focusNotes = updateNoteList focusVault (initialState typingNote)"

text \<open>
  Three more editors on the vault of \<open>noteOnly\<close> and on a vault where \<^verbatim>\<open>Deep Work\<close> has
  the alias \<^verbatim>\<open>Focus\<close>: the word followed by two spaces, the alias followed by a space, the
  word followed by a full stop.
\<close>

definition twoSpaces :: State where
  "twoSpaces = noteOnly\<lparr>editor := \<lparr>lines = (\<lambda>n. if n = 0 then ''Note  '' else []),
     cursor = \<lparr>line = 0, ch = 6\<rparr>\<rparr>\<rparr>"

definition aliasTyped :: State where
  "aliasTyped =
     updateNoteList
       \<lparr>markdownFiles = [noteFile [] ''Deep Work'', noteFile [] ''Today''],
        fileCache = (\<lambda>f. if basename f = ''Deep Work'' then OneAlias (JsString ''Focus'') else NoAliases),
        activeFile = None\<rparr>
       (initialState \<lparr>lines = (\<lambda>n. if n = 0 then ''Focus '' else []), cursor = \<lparr>line = 0, ch = 6\<rparr>\<rparr>)"

definition dotTyped :: State where
  "dotTyped = noteOnly\<lparr>editor := \<lparr>lines = (\<lambda>n. if n = 0 then ''Note.'' else []),
     cursor = \<lparr>line = 0, ch = 5\<rparr>\<rparr>\<rparr>"

text \<open>The same vault, the word typed behind other text of the line: \<^verbatim>\<open>x.Note \<close>.\<close>

definition afterStop :: State where
  "afterStop = noteOnly\<lparr>editor := \<lparr>lines = (\<lambda>n. if n = 0 then ''x.Note '' else []),
     cursor = \<lparr>line = 0, ch = 7\<rparr>\<rparr>\<rparr>"

text \<open>
  The key under which the index files a title or an alias, and the search key of a typed
  text: case-folded unless matching is case-sensitive
  (\<^verbatim>\<open>this.settings.caseSensitive ? x : x.toLowerCase()\<close>).
\<close>

definition normalizeKey :: "bool \<Rightarrow> string \<Rightarrow> string" where
  "normalizeKey cs x = (if cs then x else toLowerCase x)"

section \<open>The longest common prefix\<close>

lemma prefix_snoc_charAt:
  assumes "prefix acc s" and "charAt s (length acc) = Some c"
  shows "prefix (acc @ [c]) s"
proof -
  from assms(1) obtain zs where s: "s = acc @ zs" by (auto simp: prefix_def)
  with assms(2) have "zs \<noteq> []" and "hd zs = c"
    by (auto simp: charAt_def nth_append hd_conv_nth split: if_splits)
  then obtain zs' where "zs = c # zs'" by (cases zs) auto
  with s show ?thesis by (simp add: prefix_def)
qed

text \<open>
  The loop keeps \<open>acc\<close> equal to the first \<open>i\<close> characters of the first string, a prefix
  of every string; it stops at the end of the first string or at a string that differs
  from it at index \<open>i\<close>.
\<close>

lemma commonPrefixLoop_inv:
  assumes "rest = drop i first" and "acc = take i first" and "i \<le> length first"
    and "\<forall>s\<in>set strs. prefix acc s"
  shows "prefix (commonPrefixLoop strs rest i acc) first
       \<and> (\<forall>s\<in>set strs. prefix (commonPrefixLoop strs rest i acc) s)
       \<and> (commonPrefixLoop strs rest i acc = first
          \<or> (\<exists>s\<in>set strs. charAt s (length (commonPrefixLoop strs rest i acc))
                 \<noteq> charAt first (length (commonPrefixLoop strs rest i acc))))"
  using assms
proof (induction rest arbitrary: i acc)
  case Nil
  then have "acc = first" by simp
  with Nil show ?case by simp
next
  case (Cons c rest)
  from Cons.prems(1) have lt: "i < length first"
    by (metis drop_eq_Nil list.distinct(1) not_le)
  from Cons.prems(1) lt have ci: "first ! i = c" and rest: "rest = drop (Suc i) first"
    by (metis Cons_nth_drop_Suc list.inject)+
  have len: "length acc = i" using Cons.prems(2,3) by simp
  show ?case
  proof (cases "list_all (\<lambda>str. charAt str i = Some c) strs")
    case True
    have a: "acc @ [c] = take (Suc i) first"
      using Cons.prems(2) lt ci by (simp add: take_Suc_conv_app_nth)
    have b: "\<forall>s\<in>set strs. prefix (acc @ [c]) s"
      using True Cons.prems(4) len by (auto simp: list_all_iff intro: prefix_snoc_charAt)
    from Cons.IH[OF rest a _ b] lt True show ?thesis by simp
  next
    case False
    then obtain s where "s \<in> set strs" and "charAt s i \<noteq> Some c"
      by (auto simp: list_all_iff)
    moreover have "charAt first i = Some c" using lt ci by (simp add: charAt_def)
    moreover have "prefix acc first" using Cons.prems(2) by (simp add: take_is_prefix)
    ultimately show ?thesis using False Cons.prems(4) len by auto
  qed
qed

text \<open>
  C10. \<^verbatim>\<open>findCommonPrefix\<close> returns the longest common prefix: its result is a prefix
  of every string of the list; for a list that is not empty, a string that is a prefix
  of every element is no longer than the result; for the empty list the result is the
  empty string. (Of the empty list every string is vacuously a common prefix, so the
  bound is stated for the lists that have elements.)
\<close>

theorem findCommonPrefix_longest:
  "(\<forall>s\<in>set strings. prefix (findCommonPrefix strings) s)
   \<and> (strings \<noteq> [] \<longrightarrow>
        (\<forall>p. (\<forall>s\<in>set strings. prefix p s) \<longrightarrow> length p \<le> length (findCommonPrefix strings)))
   \<and> findCommonPrefix [] = []"
proof (cases strings)
  case Nil
  then show ?thesis by (simp add: findCommonPrefix_def)
next
  case (Cons first others)
  let ?r = "commonPrefixLoop strings first 0 []"
  have r: "findCommonPrefix strings = ?r" using Cons by (simp add: findCommonPrefix_def)
  have inv: "prefix ?r first \<and> (\<forall>s\<in>set strings. prefix ?r s)
       \<and> (?r = first \<or> (\<exists>s\<in>set strings. charAt s (length ?r) \<noteq> charAt first (length ?r)))"
    by (rule commonPrefixLoop_inv) simp_all
  have mx: "length p \<le> length ?r" if p: "\<forall>s\<in>set strings. prefix p s" for p
  proof (rule ccontr)
    assume "\<not> length p \<le> length ?r"
    then have lt: "length ?r < length p" by simp
    have pf: "prefix p first" using p Cons by simp
    then have "length p \<le> length first" by (rule prefix_length_le)
    with lt have "?r \<noteq> first" by auto
    with inv obtain s where s: "s \<in> set strings"
      and ne: "charAt s (length ?r) \<noteq> charAt first (length ?r)" by blast
    have nth: "charAt t (length ?r) = Some (p ! length ?r)" if "prefix p t" for t
      using that lt by (auto simp: prefix_def charAt_def nth_append)
    from nth[OF pf] nth[of s] p s ne show False by simp
  qed
  from inv mx r show ?thesis by (simp add: findCommonPrefix_def)
qed

theorem findCommonPrefix_longest_witness:
  "findCommonPrefix [''Note'', ''Note with Space'', ''Nothing''] = ''Not''
   \<and> length ''No'' \<le> length (findCommonPrefix [''Note'', ''Note with Space'', ''Nothing''])"
  using findCommonPrefix_longest [of "[''Note'', ''Note with Space'', ''Nothing'']"]
  by (simp add: findCommonPrefix_def charAt_def)

section \<open>The undo ledger is bounded and evicts its oldest record\<close>

lemmas prim_defs = setLine_def setCursor_def undoPush_def undoShift_def undoPop_def
  closePopup_def clearPending_def getLine_def getCursor_def

lemma pos_eta [simp]: "\<lparr>line = line (p::Pos), ch = ch p\<rparr> = p"
  by simp

lemma undoStack_insertLinkForCompletedWord:
  "undoStack (insertLinkForCompletedWord now w m d s) =
     fifoPush (undoStack s) \<lparr>uline = line (getCursor s), original = getLine s (line (getCursor s)),
           ucursor = getCursor s, timestamp = now, linkText = basename (tfile m)\<rparr>"
  by (simp add: insertLinkForCompletedWord_def fifoPush_def prim_defs Let_def)

lemma undoStack_handleAutonomousMode:
  "undoStack (handleAutonomousMode now typed matches cur s) =
     (if length matches = 1
      then fifoPush (undoStack s) \<lparr>uline = line cur, original = getLine s (line cur),
                 ucursor = cur, timestamp = now, linkText = basename (tfile (matches ! 0))\<rparr>
      else undoStack s)"
  by (simp add: handleAutonomousMode_def fifoPush_def prim_defs Let_def)

lemma undoStack_acceptSuggestion:
  "undoStack (acceptSuggestion now m typed s) =
     fifoPush (undoStack s) \<lparr>uline = line (getCursor s), original = getLine s (line (getCursor s)),
           ucursor = getCursor s, timestamp = now, linkText = basename (tfile m)\<rparr>"
  by (simp add: acceptSuggestion_def fifoPush_def prim_defs Let_def split: option.splits)

lemma undoStack_undoLastAutolink:
  "undoStack (undoLastAutolink s) = butlast (undoStack s)"
  by (simp add: undoLastAutolink_def prim_defs Let_def)

lemma undoStack_undoCommand:
  "undoStack (undoCommand now s) = butlast (undoStack s)"
  by (simp add: undoCommand_def undoStack_undoLastAutolink temporarilyDisableAutoLink_def)

lemma linkLoop_cases:
  "linkLoop key now cur lastUndo ms s = (s, False)
   \<or> linkLoop key now cur lastUndo ms s = (undoLastAutolink (temporarilyDisableAutoLink now s), True)"
proof (induction ms)
  case Nil
  show ?case by simp
next
  case (Cons m ms)
  obtain index len baseText where m: "m = (index, len, baseText)" by (cases m) auto
  from Cons show ?case unfolding m by (simp add: Let_def)
qed

lemma onKeydown_cases:
  "onKeydown key now av s = (s, False)
   \<or> (undoStack s \<noteq> [] \<and> onKeydown key now av s = (undoLastAutolink (temporarilyDisableAutoLink now s), True))"
  using linkLoop_cases [of key now "getCursor s" "last (undoStack s)" "linkMatches (getLine s (line (getCursor s)))" s]
  by (auto simp: onKeydown_def Let_def)

lemma undoStack_onKeydown:
  "undoStack (fst (onKeydown key now av s)) = undoStack s
   \<or> undoStack (fst (onKeydown key now av s)) = butlast (undoStack s)"
  using onKeydown_cases [of key now av s]
  by (auto simp: undoStack_undoLastAutolink temporarilyDisableAutoLink_def)

lemma undoStack_modeSwitch:
  "undoStack (modeSwitch now typed matches cur s) = undoStack s
   \<or> (\<exists>r. undoStack (modeSwitch now typed matches cur s) = fifoPush (undoStack s) r)"
  by (auto simp: modeSwitch_def handleSuggestionsMode_def showSuggestionPopup_def closePopup_def
      undoStack_handleAutonomousMode Let_def split: Mode.splits)

lemma undoStack_completionBranch:
  "completionBranch now lineText cb cur wc s = Some s' \<Longrightarrow>
     \<exists>r. undoStack s' = fifoPush (undoStack s) r"
  by (auto simp: completionBranch_def Let_def clearPending_def undoStack_insertLinkForCompletedWord
      split: if_splits option.splits)

lemma handleEditorChange_cases:
  "handleEditorChange now cf s = s
   \<or> handleEditorChange now cf s = clearPending (closePopup s)
   \<or> (\<exists>pm lineText cb wc.
         completionBranch now lineText cb (getCursor s) wc (s\<lparr>pendingMatches := pm\<rparr>)
           = Some (handleEditorChange now cf s))
   \<or> (\<exists>pm typed matches.
         handleEditorChange now cf s
           = modeSwitch now typed matches (getCursor s) (s\<lparr>pendingMatches := pm\<rparr>))"
proof (cases "isAutoLinkDisabled s \<or> isInsideLink (getLine s (line (getCursor s))) (ch (getCursor s))")
  case True
  then show ?thesis by (auto simp: handleEditorChange_def Let_def)
next
  case guards: False
  show ?thesis
  proof (cases "matchFragment (take (ch (getCursor s)) (getLine s (line (getCursor s))))")
    case None
    with guards show ?thesis by (simp add: handleEditorChange_def Let_def)
  next
    case (Some fragment)
    show ?thesis
    proof (cases "int (length (trim fragment)) < minWordLength (settings s)")
      case True
      with guards Some show ?thesis by (simp add: handleEditorChange_def Let_def)
    next
      case False
      let ?cb = "case cf of None \<Rightarrow> [] | Some f \<Rightarrow> basename f"
      let ?s1 = "s\<lparr>pendingMatches := (pendingMatches s)(trim fragment \<mapsto> findMatches s (trim fragment) ?cb)\<rparr>"
      let ?wc = "case (if ch (getCursor s) > 0 then charAt (getLine s (line (getCursor s))) (ch (getCursor s) - 1) else None)
                 of None \<Rightarrow> False | Some c \<Rightarrow> isDelimiter c"
      let ?c = "completionBranch now (getLine s (line (getCursor s))) ?cb (getCursor s) ?wc ?s1"
      have h: "handleEditorChange now cf s =
          (case ?c of Some s' \<Rightarrow> s'
           | None \<Rightarrow> modeSwitch now (trim fragment) (findMatches s (trim fragment) ?cb) (getCursor s) ?s1)"
        using guards Some False by (simp add: handleEditorChange_def Let_def)
      show ?thesis
      proof (cases ?c)
        case None
        with h have "handleEditorChange now cf s =
            modeSwitch now (trim fragment) (findMatches s (trim fragment) ?cb) (getCursor s) ?s1"
          by simp
        then show ?thesis by blast
      next
        case (Some s')
        with h have "?c = Some (handleEditorChange now cf s)" by simp
        then show ?thesis by blast
      qed
    qed
  qed
qed

lemma undoStack_handleEditorChange:
  "undoStack (handleEditorChange now cf s) = undoStack s
   \<or> (\<exists>r. undoStack (handleEditorChange now cf s) = fifoPush (undoStack s) r)"
proof -
  have a: "undoStack (clearPending (closePopup s)) = undoStack s"
    by (simp add: prim_defs)
  have b: "undoStack (s\<lparr>pendingMatches := pm\<rparr>) = undoStack s" for pm by simp
  from handleEditorChange_cases [of now cf s] show ?thesis
  proof (elim disjE exE)
    assume "handleEditorChange now cf s = s"
    then show ?thesis by simp
  next
    assume "handleEditorChange now cf s = clearPending (closePopup s)"
    with a show ?thesis by simp
  next
    fix pm lineText cb wc
    assume "completionBranch now lineText cb (getCursor s) wc (s\<lparr>pendingMatches := pm\<rparr>)
       = Some (handleEditorChange now cf s)"
    from undoStack_completionBranch [OF this] b show ?thesis by simp
  next
    fix pm typed matches
    assume "handleEditorChange now cf s = modeSwitch now typed matches (getCursor s) (s\<lparr>pendingMatches := pm\<rparr>)"
    with undoStack_modeSwitch [of now typed matches "getCursor s" "s\<lparr>pendingMatches := pm\<rparr>"] b
    show ?thesis by simp
  qed
qed




lemma fifoPush_length: "length st \<le> 10 \<Longrightarrow> length (fifoPush st r) \<le> 10"
  by (simp add: fifoPush_def)

lemma fifoPush_eq:
  "length st \<le> 10 \<Longrightarrow> fifoPush st r = (if length st = 10 then tl st else st) @ [r]"
  by (cases st) (auto simp: fifoPush_def)

lemma fifoPush_drop:
  "length st \<le> 10 \<Longrightarrow> fifoPush st r = drop (length (st @ [r]) - 10) (st @ [r])"
  by (cases st) (auto simp: fifoPush_def drop_Cons')

lemma foldl_fifoPush:
  "length st \<le> 10 \<Longrightarrow> foldl fifoPush st rs = drop (length (st @ rs) - 10) (st @ rs)"
proof (induction rs arbitrary: st)
  case Nil
  then show ?case by simp
next
  case (Cons r rs)
  have "foldl fifoPush (fifoPush st r) rs
      = drop (length (fifoPush st r @ rs) - 10) (fifoPush st r @ rs)"
    using Cons.prems by (intro Cons.IH fifoPush_length)
  also have "\<dots> = drop (length (st @ r # rs) - 10) (st @ r # rs)"
  proof (cases "length st = 10")
    case True
    then obtain x xs where st: "st = x # xs" by (cases st) auto
    with True show ?thesis by (simp add: fifoPush_def)
  next
    case False
    with Cons.prems show ?thesis by (simp add: fifoPush_def)
  qed
  finally show ?case by simp
qed

lemma undoStack_step_bound:
  assumes "length (undoStack s) \<le> 10"
  shows "length (undoStack (step ev s)) \<le> 10"
proof (cases ev)
  case (EditorChange now cf)
  with undoStack_handleEditorChange [of now cf s] assms show ?thesis
    by (auto simp: fifoPush_length)
next
  case (KeyDown key now av)
  with undoStack_onKeydown [of key now av s] assms show ?thesis by auto
next
  case (UndoCommand now)
  with assms show ?thesis by (simp add: undoStack_undoCommand)
next
  case UndoLast
  with assms show ?thesis by (simp add: undoStack_undoLastAutolink)
next
  case (InsertCompleted now w m d)
  with assms show ?thesis by (simp add: undoStack_insertLinkForCompletedWord fifoPush_length)
next
  case (AutonomousInsert now typed matches cur)
  with assms show ?thesis by (simp add: undoStack_handleAutonomousMode fifoPush_length)
next
  case (AcceptSuggestion now m typed)
  with assms show ?thesis by (simp add: undoStack_acceptSuggestion fifoPush_length)
next
  case TimerFired
  with assms show ?thesis by (simp add: timerFired_def)
next
  case (Rebuild vault)
  with assms show ?thesis by (simp add: updateNoteList_def Let_def)
next
  case (UserEdit e)
  with assms show ?thesis by simp
qed

lemma undoStack_run_bound:
  "length (undoStack s) \<le> 10 \<Longrightarrow> length (undoStack (run evs s)) \<le> 10"
  by (induction evs arbitrary: s) (auto intro: undoStack_step_bound)

lemma undoStack_step_captured:
  "capturedRecord ev s = Some r \<Longrightarrow> undoStack (step ev s) = fifoPush (undoStack s) r"
  by (cases ev)
    (auto simp: undoStack_insertLinkForCompletedWord undoStack_handleAutonomousMode
       undoStack_acceptSuggestion split: if_splits)

lemma isInsertion_captured: "isInsertion ev \<Longrightarrow> \<exists>r. capturedRecord ev s = Some r"
  by (cases ev) auto

lemma undoStack_run_insertions:
  "list_all isInsertion evs \<Longrightarrow>
     undoStack (run evs s) = foldl fifoPush (undoStack s) (capturedAll evs s)
     \<and> length (capturedAll evs s) = length evs"
proof (induction evs arbitrary: s)
  case Nil
  then show ?case by simp
next
  case (Cons ev evs)
  then obtain r where r: "capturedRecord ev s = Some r"
    using isInsertion_captured [of ev s] by auto
  from Cons.prems have "list_all isInsertion evs" by simp
  from Cons.IH [OF this, of "step ev s"] r undoStack_step_captured [OF r]
  show ?case by simp
qed

text \<open>
  C5. From a ledger of at most 10 records (the empty ledger a plugin starts with is one),
  every run of events leaves at most 10 records. An event that captures a record \<open>r\<close>
  appends it and, when the ledger was full, evicts the oldest record. After a run of
  insertions from the empty ledger the ledger is the last 10 of the records captured, in
  their order; after 15 insertions it has exactly 10 records, the 10 most recent.
\<close>

theorem undoStack_bounded_fifo:
  "(length (undoStack s) \<le> 10 \<longrightarrow> length (undoStack (run evs s)) \<le> 10)
   \<and> (length (undoStack s) \<le> 10 \<and> capturedRecord ev s = Some r \<longrightarrow>
        undoStack (step ev s) = (if length (undoStack s) = 10 then tl (undoStack s) else undoStack s) @ [r])
   \<and> (undoStack s = [] \<and> list_all isInsertion evs \<longrightarrow>
        length (capturedAll evs s) = length evs
        \<and> undoStack (run evs s) = drop (length evs - 10) (capturedAll evs s))
   \<and> (undoStack s = [] \<and> list_all isInsertion evs \<and> length evs = 15 \<longrightarrow>
        length (undoStack (run evs s)) = 10
        \<and> undoStack (run evs s) = drop 5 (capturedAll evs s))"
proof -
  have ins: "length (capturedAll evs s) = length evs
        \<and> undoStack (run evs s) = drop (length evs - 10) (capturedAll evs s)"
    if "undoStack s = []" and "list_all isInsertion evs"
    using undoStack_run_insertions [OF that(2), of s] that(1)
      foldl_fifoPush [of "[]" "capturedAll evs s"] by simp
  show ?thesis
    using ins undoStack_run_bound [of s evs] undoStack_step_captured [of ev s r]
      fifoPush_eq [of "undoStack s" r]
    by auto
qed




lemmas eval_defs = initialState_def noteFile_def titleMatch_def typingNote_def fifteenInsertions_def
  insertLinkForCompletedWord_def makeLink_def prim_defs Let_def

theorem undoStack_bounded_fifo_witness:
  "undoStack (initialState typingNote) = []
   \<and> list_all isInsertion fifteenInsertions
   \<and> length fifteenInsertions = 15
   \<and> length (undoStack (run fifteenInsertions (initialState typingNote))) = 10
   \<and> map timestamp (undoStack (run fifteenInsertions (initialState typingNote)))
       = [6, 7, 8, 9, 10, 11, 12, 13, 14, 15]
   \<and> map timestamp (capturedAll fifteenInsertions (initialState typingNote))
       = [1, 2, 3, 4, 5, 6, 7, 8, 9, 10, 11, 12, 13, 14, 15]"
proof -
  have c: "map timestamp (capturedAll fifteenInsertions (initialState typingNote))
       = [1, 2, 3, 4, 5, 6, 7, 8, 9, 10, 11, 12, 13, 14, 15]"
    by (simp add: eval_defs)
  have h: "undoStack (initialState typingNote) = []
   \<and> list_all isInsertion fifteenInsertions \<and> length fifteenInsertions = 15"
    by (simp add: initialState_def fifteenInsertions_def)
  from undoStack_bounded_fifo [of "initialState typingNote" fifteenInsertions
      "InsertCompleted 1 ''Note'' (titleMatch (noteFile [] ''Note'')) 4"
      "\<lparr>uline = 0, original = ''Note '', ucursor = \<lparr>line = 0, ch = 5\<rparr>, timestamp = 1, linkText = ''Note''\<rparr>"]
    h
  have "length (undoStack (run fifteenInsertions (initialState typingNote))) = 10
        \<and> undoStack (run fifteenInsertions (initialState typingNote))
          = drop 5 (capturedAll fifteenInsertions (initialState typingNote))"
    by blast
  then have l: "length (undoStack (run fifteenInsertions (initialState typingNote))) = 10"
    and e: "undoStack (run fifteenInsertions (initialState typingNote))
          = drop 5 (capturedAll fifteenInsertions (initialState typingNote))"
    by blast+
  have "map timestamp (undoStack (run fifteenInsertions (initialState typingNote)))
          = drop 5 (map timestamp (capturedAll fifteenInsertions (initialState typingNote)))"
    by (simp only: e drop_map)
  then have "map timestamp (undoStack (run fifteenInsertions (initialState typingNote)))
          = [6, 7, 8, 9, 10, 11, 12, 13, 14, 15]"
    by (simp only: c) simp
  with c h l show ?thesis by blast
qed

section \<open>The handler that links on uniqueness alone\<close>

lemma completionBranch_soleTrigger_eq:
  "completionBranch_soleTrigger now lineText cb cur wc s = completionBranch now lineText cb cur wc s"
  by (simp add: completionBranch_soleTrigger_def completionBranch_def Let_def split: option.splits)

text \<open>
  C9. In the completion branch the test \<^verbatim>\<open>wasWaiting || completedMatches.length === 1\<close>
  stands inside the branch of \<^verbatim>\<open>completedMatches.length === 1\<close>, so it always
  holds there: the handler that links on ``exactly one candidate at word completion''
  alone returns the same state as the handler of the source, for every time, view and
  state.
\<close>

theorem handleEditorChange_soleTrigger_equivalent:
  "handleEditorChange_soleTrigger now currentFile s = handleEditorChange now currentFile s"
  unfolding handleEditorChange_soleTrigger_def handleEditorChange_def
    completionBranch_soleTrigger_eq
  by (rule refl)

section \<open>Explicit undo\<close>

lemma lines_undoLastAutolink:
  "undoStack s \<noteq> [] \<Longrightarrow>
     lines (editor (undoLastAutolink s))
       = (lines (editor s))(uline (last (undoStack s)) := original (last (undoStack s)))"
  by (simp add: undoLastAutolink_def prim_defs Let_def)

lemma cursor_undoLastAutolink:
  "undoStack s \<noteq> [] \<Longrightarrow> getCursor (undoLastAutolink s) = ucursor (last (undoStack s))"
  by (simp add: undoLastAutolink_def prim_defs Let_def)

lemma undoLastAutolink_empty: "undoStack s = [] \<Longrightarrow> undoLastAutolink s = s"
  by (simp add: undoLastAutolink_def)

text \<open>
  C6. On a ledger that is not empty, the undo command and \<^verbatim>\<open>undoLastAutolink\<close> pop the
  most recent record, set the line the record names to the text the record stores and the
  cursor to the position it stores, and leave every other line as it is; neither the
  time of the command nor the timestamp of the record is looked at. On the empty ledger
  both leave the state as it is.
\<close>

theorem undo_restores_original:
  "(undoStack s \<noteq> [] \<longrightarrow>
      undoStack (undoCommand now s) = butlast (undoStack s)
      \<and> getLine (undoCommand now s) (uline (last (undoStack s))) = original (last (undoStack s))
      \<and> getCursor (undoCommand now s) = ucursor (last (undoStack s))
      \<and> (\<forall>n. n \<noteq> uline (last (undoStack s)) \<longrightarrow> getLine (undoCommand now s) n = getLine s n)
      \<and> undoStack (undoLastAutolink s) = butlast (undoStack s)
      \<and> getLine (undoLastAutolink s) (uline (last (undoStack s))) = original (last (undoStack s))
      \<and> getCursor (undoLastAutolink s) = ucursor (last (undoStack s))
      \<and> (\<forall>n. n \<noteq> uline (last (undoStack s)) \<longrightarrow> getLine (undoLastAutolink s) n = getLine s n))
   \<and> (undoStack s = [] \<longrightarrow> undoCommand now s = s \<and> undoLastAutolink s = s)"
proof -
  let ?d = "temporarilyDisableAutoLink now s"
  have d: "undoStack ?d = undoStack s" "editor ?d = editor s"
    by (simp_all add: temporarilyDisableAutoLink_def)
  have c: "undoCommand now s = undoLastAutolink ?d" if "undoStack s \<noteq> []"
    using that by (simp add: undoCommand_def)
  have e: "undoCommand now s = s" if "undoStack s = []"
    using that by (simp add: undoCommand_def)
  show ?thesis
    using lines_undoLastAutolink [of s] cursor_undoLastAutolink [of s]
      lines_undoLastAutolink [of ?d] cursor_undoLastAutolink [of ?d]
      undoStack_undoLastAutolink [of s] undoStack_undoLastAutolink [of ?d]
      undoLastAutolink_empty [of s] c e d
    by (auto simp: getLine_def)
qed

theorem undo_restores_original_witness:
  "undoStack afterInsertion \<noteq> []
   \<and> getLine afterInsertion 0 = ''[[Note]] ''
   \<and> getLine (undoCommand 999000 afterInsertion) 0 = ''Note ''
   \<and> getCursor (undoCommand 999000 afterInsertion) = \<lparr>line = 0, ch = 5\<rparr>
   \<and> undoStack (undoCommand 999000 afterInsertion) = []
   \<and> undoStack (initialState typingNote) = []
   \<and> undoCommand 5 (initialState typingNote) = initialState typingNote"
proof -
  have s: "undoStack afterInsertion =
      [\<lparr>uline = 0, original = ''Note '', ucursor = \<lparr>line = 0, ch = 5\<rparr>, timestamp = 1000,
        linkText = ''Note''\<rparr>]"
    and l: "getLine afterInsertion 0 = ''[[Note]] ''"
    by (simp_all add: afterInsertion_def eval_defs)
  have e: "undoStack (initialState typingNote) = []" by (simp add: initialState_def)
  from undo_restores_original [of afterInsertion 999000]
    undo_restores_original [of "initialState typingNote" 5] s l e
  show ?thesis by simp
qed

section \<open>The undo record is captured before the line is overwritten\<close>

lemma trace_insertLinkForCompletedWord:
  "trace (insertLinkForCompletedWord now w m d s) =
     trace s @ [PushUndo \<lparr>uline = line (getCursor s), original = getLine s (line (getCursor s)),
                  ucursor = getCursor s, timestamp = now, linkText = basename (tfile m)\<rparr>,
                SetLine (line (getCursor s))
                  (getLine (insertLinkForCompletedWord now w m d s) (line (getCursor s))),
                SetCursor (getCursor (insertLinkForCompletedWord now w m d s))]
       @ (if 10 \<le> length (undoStack s) then [ShiftUndo] else [])"
  by (simp add: insertLinkForCompletedWord_def prim_defs Let_def)

lemma trace_acceptSuggestion:
  "trace (acceptSuggestion now m typed s) =
     trace s @ [PushUndo \<lparr>uline = line (getCursor s), original = getLine s (line (getCursor s)),
                  ucursor = getCursor s, timestamp = now, linkText = basename (tfile m)\<rparr>,
                SetLine (line (getCursor s))
                  (getLine (acceptSuggestion now m typed s) (line (getCursor s))),
                SetCursor (getCursor (acceptSuggestion now m typed s))]
       @ (if 10 \<le> length (undoStack s) then [ShiftUndo] else [])"
  by (simp add: acceptSuggestion_def prim_defs Let_def split: option.splits)

lemma trace_handleAutonomousMode:
  "length matches = 1 \<Longrightarrow>
   trace (handleAutonomousMode now typed matches cur s) =
     trace s @ [PushUndo \<lparr>uline = line cur, original = getLine s (line cur),
                  ucursor = cur, timestamp = now, linkText = basename (tfile (matches ! 0))\<rparr>,
                SetLine (line cur) (getLine (handleAutonomousMode now typed matches cur s) (line cur)),
                SetCursor (getCursor (handleAutonomousMode now typed matches cur s))]
       @ (if 10 \<le> length (undoStack s) then [ShiftUndo] else [])"
  by (simp add: handleAutonomousMode_def prim_defs Let_def)

lemma trace_handleAutonomousMode_other:
  "length matches \<noteq> 1 \<Longrightarrow> trace (handleAutonomousMode now typed matches cur s) = trace s"
  by (simp add: handleAutonomousMode_def prim_defs)

lemma capturedBefore_insertion:
  assumes "t' = t @ [PushUndo r, SetLine n newText, SetCursor p] @ tail"
    and "tail = (if b then [ShiftUndo] else [])"
    and "uline r = n" and "original r = getLine s n" and "ucursor r = cur"
  shows "prefix t t' \<and> capturedBefore s cur [] (drop (length t) t')"
  using assms by simp

lemma lines_insertLinkForCompletedWord:
  "lines (editor (insertLinkForCompletedWord now w m d s))
      = (lines (editor s))(line (getCursor s) :=
          getLine (insertLinkForCompletedWord now w m d s) (line (getCursor s)))"
  by (simp add: insertLinkForCompletedWord_def prim_defs Let_def)

lemma lines_acceptSuggestion:
  "lines (editor (acceptSuggestion now m typed s))
      = (lines (editor s))(line (getCursor s) :=
          getLine (acceptSuggestion now m typed s) (line (getCursor s)))"
  by (simp add: acceptSuggestion_def prim_defs Let_def split: option.splits)

lemma lines_handleAutonomousMode:
  "length matches = 1 \<Longrightarrow>
   lines (editor (handleAutonomousMode now typed matches cur s))
      = (lines (editor s))(line cur :=
          getLine (handleAutonomousMode now typed matches cur s) (line cur))"
  by (simp add: handleAutonomousMode_def prim_defs Let_def)

lemma last_fifoPush: "last (fifoPush st r) = r"
  by (cases st) (auto simp: fifoPush_def)

lemma fifoPush_nonempty: "fifoPush st r \<noteq> []"
  by (cases st) (auto simp: fifoPush_def)

text \<open>Undoing right after a push that captured line \<open>n\<close> of the earlier editor.\<close>

lemma undo_after_capture:
  assumes st: "undoStack s' = fifoPush st r"
    and ln: "lines (editor s') = f(n := newText)"
    and n: "uline r = n"
    and orig: "original r = f n"
  shows "lines (editor (undoLastAutolink s')) = f"
    and "getCursor (undoLastAutolink s') = ucursor r"
proof -
  from st have ne: "undoStack s' \<noteq> []" and l: "last (undoStack s') = r"
    by (simp_all add: fifoPush_nonempty last_fifoPush)
  have "lines (editor (undoLastAutolink s')) = (f(n := newText))(n := f n)"
    using lines_undoLastAutolink [OF ne] l ln orig n by simp
  then show "lines (editor (undoLastAutolink s')) = f" by simp
  from cursor_undoLastAutolink [OF ne] l
  show "getCursor (undoLastAutolink s') = ucursor r" by simp
qed

lemma captured_insertLinkForCompletedWord:
  "prefix (trace s) (trace (insertLinkForCompletedWord now w m d s))
   \<and> capturedBefore s (getCursor s) []
        (drop (length (trace s)) (trace (insertLinkForCompletedWord now w m d s)))"
  by (rule capturedBefore_insertion [OF trace_insertLinkForCompletedWord refl]) simp_all

lemma captured_acceptSuggestion:
  "prefix (trace s) (trace (acceptSuggestion now m typed s))
   \<and> capturedBefore s (getCursor s) []
        (drop (length (trace s)) (trace (acceptSuggestion now m typed s)))"
  by (rule capturedBefore_insertion [OF trace_acceptSuggestion refl]) simp_all

lemma captured_handleAutonomousMode:
  "prefix (trace s) (trace (handleAutonomousMode now typed matches cur s))
   \<and> capturedBefore s cur []
        (drop (length (trace s)) (trace (handleAutonomousMode now typed matches cur s)))"
proof (cases "length matches = 1")
  case True
  show ?thesis
    by (rule capturedBefore_insertion [OF trace_handleAutonomousMode [OF True] refl]) simp_all
next
  case False
  then show ?thesis by (simp add: trace_handleAutonomousMode_other)
qed

lemma captured_modeSwitch:
  "prefix (trace s) (trace (modeSwitch now typed matches cur s))
   \<and> capturedBefore s cur []
        (drop (length (trace s)) (trace (modeSwitch now typed matches cur s)))"
proof -
  have "modeSwitch now typed matches cur s = handleAutonomousMode now typed matches cur s
      \<or> trace (modeSwitch now typed matches cur s) = trace s"
    by (auto simp: modeSwitch_def handleSuggestionsMode_def showSuggestionPopup_def closePopup_def
        Let_def split: Mode.splits)
  with captured_handleAutonomousMode [of s now typed matches cur] show ?thesis by auto
qed

lemma captured_completionBranch:
  assumes "completionBranch now lineText cb cur wc s = Some s'" and "cur = getCursor s"
  shows "prefix (trace s) (trace s')
   \<and> capturedBefore s cur [] (drop (length (trace s)) (trace s'))"
proof -
  from assms(1) obtain w m d where "s' = clearPending (insertLinkForCompletedWord now w m d s)"
    by (auto simp: completionBranch_def Let_def split: if_splits option.splits)
  then have "trace s' = trace (insertLinkForCompletedWord now w m d s)"
    by (simp add: clearPending_def)
  with captured_insertLinkForCompletedWord [of s now w m d] assms(2) show ?thesis by simp
qed

lemma captured_handleEditorChange:
  "prefix (trace s) (trace (handleEditorChange now cf s))
   \<and> capturedBefore s (getCursor s) []
        (drop (length (trace s)) (trace (handleEditorChange now cf s)))"
proof -
  have pm: "trace (s\<lparr>pendingMatches := pm\<rparr>) = trace s"
    "getLine (s\<lparr>pendingMatches := pm\<rparr>) = getLine s"
    "getCursor (s\<lparr>pendingMatches := pm\<rparr>) = getCursor s" for pm
    by (simp_all add: getLine_def getCursor_def fun_eq_iff)
  have cb: "capturedBefore (s\<lparr>pendingMatches := pm\<rparr>) c seen es = capturedBefore s c seen es"
    for pm c seen es
    by (induction es arbitrary: seen) (simp_all add: pm split: Effect.splits)
  from handleEditorChange_cases [of now cf s] show ?thesis
  proof (elim disjE exE)
    assume "handleEditorChange now cf s = s"
    then show ?thesis by simp
  next
    assume "handleEditorChange now cf s = clearPending (closePopup s)"
    then show ?thesis by (simp add: prim_defs)
  next
    fix pm lineText cb' wc
    assume "completionBranch now lineText cb' (getCursor s) wc (s\<lparr>pendingMatches := pm\<rparr>)
       = Some (handleEditorChange now cf s)"
    from captured_completionBranch [OF this] pm cb show ?thesis by simp
  next
    fix pm typed matches
    assume "handleEditorChange now cf s
      = modeSwitch now typed matches (getCursor s) (s\<lparr>pendingMatches := pm\<rparr>)"
    with captured_modeSwitch [of "s\<lparr>pendingMatches := pm\<rparr>" now typed matches "getCursor s"] pm cb
    show ?thesis by simp
  qed
qed

text \<open>
  C8. In \<^verbatim>\<open>insertLinkForCompletedWord\<close>, \<^verbatim>\<open>acceptSuggestion\<close>,
  \<^verbatim>\<open>handleAutonomousMode\<close> and in the whole of \<^verbatim>\<open>handleEditorChange\<close>, the
  writes the call adds to the history have every \<open>SetLine\<close> after a \<open>PushUndo\<close> whose
  record holds the line number, the full text of that line before the call and the
  cursor before the call (for \<^verbatim>\<open>handleAutonomousMode\<close> the cursor it is passed). So
  the original is recoverable: \<^verbatim>\<open>undoLastAutolink\<close> right after an insertion gives back
  every line and the cursor as they were.
\<close>

theorem undo_record_captured_before_mutation:
  "(prefix (trace s) (trace (insertLinkForCompletedWord now w m d s))
    \<and> capturedBefore s (getCursor s) []
         (drop (length (trace s)) (trace (insertLinkForCompletedWord now w m d s)))
    \<and> lines (editor (undoLastAutolink (insertLinkForCompletedWord now w m d s))) = lines (editor s)
    \<and> getCursor (undoLastAutolink (insertLinkForCompletedWord now w m d s)) = getCursor s)
   \<and> (prefix (trace s) (trace (acceptSuggestion now m typed s))
    \<and> capturedBefore s (getCursor s) []
         (drop (length (trace s)) (trace (acceptSuggestion now m typed s)))
    \<and> lines (editor (undoLastAutolink (acceptSuggestion now m typed s))) = lines (editor s)
    \<and> getCursor (undoLastAutolink (acceptSuggestion now m typed s)) = getCursor s)
   \<and> (prefix (trace s) (trace (handleAutonomousMode now typed matches cur s))
    \<and> capturedBefore s cur []
         (drop (length (trace s)) (trace (handleAutonomousMode now typed matches cur s)))
    \<and> (length matches = 1 \<longrightarrow>
         lines (editor (undoLastAutolink (handleAutonomousMode now typed matches cur s)))
           = lines (editor s)
         \<and> getCursor (undoLastAutolink (handleAutonomousMode now typed matches cur s)) = cur))
   \<and> (prefix (trace s) (trace (handleEditorChange now currentFile s))
    \<and> capturedBefore s (getCursor s) []
         (drop (length (trace s)) (trace (handleEditorChange now currentFile s))))"
proof -
  have i: "lines (editor (undoLastAutolink (insertLinkForCompletedWord now w m d s))) = lines (editor s)"
    by (rule undo_after_capture(1)
          [OF undoStack_insertLinkForCompletedWord lines_insertLinkForCompletedWord])
       (simp_all add: getLine_def)
  have "getCursor (undoLastAutolink (insertLinkForCompletedWord now w m d s))
      = ucursor \<lparr>uline = line (getCursor s), original = getLine s (line (getCursor s)),
           ucursor = getCursor s, timestamp = now, linkText = basename (tfile m)\<rparr>"
    by (rule undo_after_capture(2)
          [OF undoStack_insertLinkForCompletedWord lines_insertLinkForCompletedWord])
       (simp_all add: getLine_def)
  then have i': "getCursor (undoLastAutolink (insertLinkForCompletedWord now w m d s)) = getCursor s"
    by simp
  have a: "lines (editor (undoLastAutolink (acceptSuggestion now m typed s))) = lines (editor s)"
    by (rule undo_after_capture(1) [OF undoStack_acceptSuggestion lines_acceptSuggestion])
       (simp_all add: getLine_def)
  have "getCursor (undoLastAutolink (acceptSuggestion now m typed s))
      = ucursor \<lparr>uline = line (getCursor s), original = getLine s (line (getCursor s)),
           ucursor = getCursor s, timestamp = now, linkText = basename (tfile m)\<rparr>"
    by (rule undo_after_capture(2) [OF undoStack_acceptSuggestion lines_acceptSuggestion])
       (simp_all add: getLine_def)
  then have a': "getCursor (undoLastAutolink (acceptSuggestion now m typed s)) = getCursor s"
    by simp
  have h: "lines (editor (undoLastAutolink (handleAutonomousMode now typed matches cur s)))
           = lines (editor s)
         \<and> getCursor (undoLastAutolink (handleAutonomousMode now typed matches cur s)) = cur"
    if one: "length matches = 1"
  proof -
    have st: "undoStack (handleAutonomousMode now typed matches cur s)
       = fifoPush (undoStack s) \<lparr>uline = line cur, original = getLine s (line cur),
                 ucursor = cur, timestamp = now, linkText = basename (tfile (matches ! 0))\<rparr>"
      using one by (simp add: undoStack_handleAutonomousMode)
    have "lines (editor (undoLastAutolink (handleAutonomousMode now typed matches cur s)))
           = lines (editor s)"
      by (rule undo_after_capture(1) [OF st lines_handleAutonomousMode [OF one]])
         (simp_all add: getLine_def)
    moreover have "getCursor (undoLastAutolink (handleAutonomousMode now typed matches cur s))
        = ucursor \<lparr>uline = line cur, original = getLine s (line cur),
                 ucursor = cur, timestamp = now, linkText = basename (tfile (matches ! 0))\<rparr>"
      by (rule undo_after_capture(2) [OF st lines_handleAutonomousMode [OF one]])
         (simp_all add: getLine_def)
    ultimately show ?thesis by simp
  qed
  note c1 = captured_insertLinkForCompletedWord [of s now w m d]
  note c2 = captured_acceptSuggestion [of s now m typed]
  note c3 = captured_handleAutonomousMode [of s now typed matches cur]
  note c4 = captured_handleEditorChange [of s now currentFile]
  show ?thesis
    apply (intro conjI impI)
    using c1 c2 c3 c4 i i' a a' h by (rule conjunct1 conjunct2 | assumption | blast)+
qed

theorem undo_record_captured_before_mutation_witness:
  "length [titleMatch (noteFile [] ''Note'')] = 1
   \<and> trace afterInsertion =
       [PushUndo \<lparr>uline = 0, original = ''Note '', ucursor = \<lparr>line = 0, ch = 5\<rparr>,
                  timestamp = 1000, linkText = ''Note''\<rparr>,
        SetLine 0 ''[[Note]] '', SetCursor \<lparr>line = 0, ch = 9\<rparr>]
   \<and> capturedBefore (initialState typingNote) \<lparr>line = 0, ch = 5\<rparr> [] (trace afterInsertion)
   \<and> getLine (undoLastAutolink afterInsertion) 0 = ''Note ''
   \<and> getCursor (undoLastAutolink afterInsertion) = \<lparr>line = 0, ch = 5\<rparr>
   \<and> getLine (undoLastAutolink
         (handleAutonomousMode 1000 ''Note '' [titleMatch (noteFile [] ''Note'')]
            \<lparr>line = 0, ch = 5\<rparr> (initialState typingNote))) 0 = ''Note ''"
proof -
  have t: "trace afterInsertion =
       [PushUndo \<lparr>uline = 0, original = ''Note '', ucursor = \<lparr>line = 0, ch = 5\<rparr>,
                  timestamp = 1000, linkText = ''Note''\<rparr>,
        SetLine 0 ''[[Note]] '', SetCursor \<lparr>line = 0, ch = 9\<rparr>]"
    by (simp add: afterInsertion_def eval_defs)
  have i: "trace (initialState typingNote) = []"
    "getCursor (initialState typingNote) = \<lparr>line = 0, ch = 5\<rparr>"
    "lines (editor (initialState typingNote)) 0 = ''Note ''"
    by (simp_all add: eval_defs)
  from undo_record_captured_before_mutation
    [of "initialState typingNote" 1000 "''Note''" "titleMatch (noteFile [] ''Note'')" 4
        "''Note ''" "[titleMatch (noteFile [] ''Note'')]" "\<lparr>line = 0, ch = 5\<rparr>" None]
    t i
  show ?thesis by (simp add: afterInsertion_def getLine_def)
qed

section \<open>Columns inside a produced link\<close>

lemma countPairs_append_le: "countPairs c s \<le> countPairs c (s @ t)"
  by (induction c s rule: countPairs.induct) auto

lemma countPairs_append_pair: "Suc (countPairs c s) \<le> countPairs c (s @ c # c # t)"
  by (induction c s rule: countPairs.induct) auto

lemma countPairs_other_Cons: "b \<noteq> c \<Longrightarrow> countPairs c (b # t) = countPairs c t"
  by (cases t) auto

lemma countPairs_other_append:
  "b \<noteq> c \<Longrightarrow> countPairs c (s @ b # t) = countPairs c s + countPairs c t"
  by (induction c s rule: countPairs.induct) (auto simp: countPairs_other_Cons)


lemma isInsideLink_interior:
  assumes pre: "countPairs (CHR '']'') pre \<le> countPairs (CHR ''['') pre"
    and body: "countPairs (CHR '']'') (body @ '']'') = 0"
    and lo: "length pre + 2 \<le> c"
    and hi: "c \<le> length pre + length body + 3"
  shows "isInsideLink (pre @ ''[['' @ body @ '']]'' @ post) c"
proof -
  let ?line = "pre @ ''[['' @ body @ '']]'' @ post"
  let ?k = "c - (length pre + 2)"
  let ?x = "take ?k (body @ '']'')"
  have k: "?k \<le> length body + 1" using hi by simp
  have bc: "take c ?line = pre @ ''[['' @ ?x"
    using lo k by (simp add: take_Cons')
  obtain y where y: "body @ '']'' = ?x @ y"
    by (metis append_take_drop_id)
  have "countPairs (CHR '']'') ?x \<le> countPairs (CHR '']'') (body @ '']'')"
    by (subst (2) y) (rule countPairs_append_le)
  with body have x0: "countPairs (CHR '']'') ?x = 0" by simp
  have cl: "countPairs (CHR '']'') (take c ?line) = countPairs (CHR '']'') pre"
    unfolding bc using x0
    by (simp add: countPairs_other_append countPairs_other_Cons)
  have op: "Suc (countPairs (CHR ''['') pre) \<le> countPairs (CHR ''['') (take c ?line)"
    unfolding bc using countPairs_append_pair [of "CHR ''[''" pre ?x] by simp
  from cl op pre show ?thesis by (simp add: isInsideLink_def Let_def)
qed

text \<open>
  C4 (amended). Let a line hold a produced link \<^verbatim>\<open>[[Target]]\<close> or
  \<^verbatim>\<open>[[Target|Label]]\<close> after a text \<open>pre\<close> that has no more \<^verbatim>\<open>]]\<close> than \<^verbatim>\<open>[[\<close>,
  and let the text between the brackets, followed by one \<^verbatim>\<open>]\<close>, hold no \<^verbatim>\<open>]]\<close>.
  Then \<^verbatim>\<open>isInsideLink\<close> is true at every column from behind the opening \<^verbatim>\<open>[[\<close> up to
  the column between the two closing brackets. (The column between the two opening
  brackets is interior to the span too, and the detector does not hold there.)
\<close>

theorem isInsideLink_produced_link:
  assumes "countPairs (CHR '']'') pre \<le> countPairs (CHR ''['') pre"
    and "countPairs (CHR '']'')
           (basename (tfile m) @ (if isAlias m then ''|'' @ title m else []) @ '']'') = 0"
    and "length pre + 2 \<le> c"
    and "c < length pre + length (makeLink m)"
  shows "isInsideLink (pre @ makeLink m @ post) c"
proof -
  let ?body = "basename (tfile m) @ (if isAlias m then ''|'' @ title m else [])"
  have m: "makeLink m = ''[['' @ ?body @ '']]''" by (simp add: makeLink_def)
  have "isInsideLink (pre @ ''[['' @ ?body @ '']]'' @ post) c"
    using assms by (intro isInsideLink_interior) (simp_all add: m)
  then show ?thesis by (simp add: m)
qed

text \<open>
  Columns strictly inside the span of a produced link where the detector answers no:
  column 1 of \<^verbatim>\<open>[[Target]]\<close>, between the two opening brackets; a column of the link
  behind a stray \<^verbatim>\<open>]]\<close>; a column behind a \<^verbatim>\<open>]]\<close> that the label itself holds.
\<close>

theorem isInsideLink_produced_link_counterexample:
  "makeLink (titleMatch (noteFile [] ''Target'')) = ''[[Target]]''
   \<and> (0::nat) < 1 \<and> 1 < length (makeLink (titleMatch (noteFile [] ''Target'')))
   \<and> \<not> isInsideLink (makeLink (titleMatch (noteFile [] ''Target''))) 1
   \<and> length '']] '' < (6::nat)
   \<and> 6 < length '']] '' + length (makeLink (titleMatch (noteFile [] ''Target'')))
   \<and> \<not> isInsideLink ('']] '' @ makeLink (titleMatch (noteFile [] ''Target''))) 6
   \<and> makeLink \<lparr>title = ''a]]b'', tfile = noteFile [] ''T'', isAlias = True\<rparr> = ''[[T|a]]b]]''
   \<and> (0::nat) < 8
   \<and> 8 < length (makeLink \<lparr>title = ''a]]b'', tfile = noteFile [] ''T'', isAlias = True\<rparr>)
   \<and> \<not> isInsideLink (makeLink \<lparr>title = ''a]]b'', tfile = noteFile [] ''T'', isAlias = True\<rparr>) 8"
  by (simp add: makeLink_def titleMatch_def noteFile_def isInsideLink_def lastIndexOfChar_def)

theorem isInsideLink_produced_link_witness:
  "countPairs (CHR '']'') ''see '' \<le> countPairs (CHR ''['') ''see ''
   \<and> countPairs (CHR '']'') (''Deep Work'' @ ''|'' @ ''Focus'' @ '']'') = 0
   \<and> length ''see '' + 2 \<le> 7
   \<and> 7 < length ''see '' + length (makeLink \<lparr>title = ''Focus'', tfile = noteFile [] ''Deep Work'', isAlias = True\<rparr>)
   \<and> isInsideLink ''see [[Deep Work|Focus]] now'' 7"
  using isInsideLink_produced_link
    [of "''see ''" "\<lparr>title = ''Focus'', tfile = noteFile [] ''Deep Work'', isAlias = True\<rparr>" 7 "'' now''"]
  by (simp add: makeLink_def noteFile_def)

section \<open>Applying a link for a completed word\<close>

lemma getLine_insertLinkForCompletedWord:
  "getLine (insertLinkForCompletedWord now w m d s) n =
     (if n = line (getCursor s)
      then take (length (take d (getLine s n)) - length w) (getLine s n) @ makeLink m
             @ drop d (getLine s n)
      else getLine s n)"
  by (simp add: insertLinkForCompletedWord_def prim_defs Let_def)

lemma getCursor_insertLinkForCompletedWord:
  "getCursor (insertLinkForCompletedWord now w m d s) =
     \<lparr>line = line (getCursor s),
      ch = min (length (getLine (insertLinkForCompletedWord now w m d s) (line (getCursor s))))
             (length (take d (getLine s (line (getCursor s)))) - length w + length (makeLink m) + 1)\<rparr>"
  by (simp add: insertLinkForCompletedWord_def prim_defs Let_def)

text \<open>
  C3 (amended). The link is \<^verbatim>\<open>[[TargetBasename]]\<close> for a title match and
  \<^verbatim>\<open>[[TargetBasename|Title]]\<close>, with the title of the candidate, for an alias match (a
  candidate \<^verbatim>\<open>Focus\<close> for the note \<^verbatim>\<open>Deep Work\<close> gives \<^verbatim>\<open>[[Deep Work|Focus]]\<close>). When the
  completed word stands right before the delimiter, \<^verbatim>\<open>insertLinkForCompletedWord\<close>
  replaces exactly the span of the word by the link, keeps the delimiter and all text
  outside the span, changes no other line, and puts the cursor one column behind the
  end of the link, that is right behind the delimiter; this column is the one the source
  clamps to the length of the new line.
\<close>

theorem insertLinkForCompletedWord_applies_link:
  assumes cur: "cur = getCursor s"
    and lineText: "lineText = getLine s (line cur)"
    and word: "suffix completedWord (take delimiterPos lineText)"
    and delim: "delimiterPos < length lineText"
    and s': "s' = insertLinkForCompletedWord now completedWord m delimiterPos s"
    and wordStart: "wordStart = delimiterPos - length completedWord"
  shows "makeLink m = (if isAlias m then ''[['' @ basename (tfile m) @ ''|'' @ title m @ '']]''
                       else ''[['' @ basename (tfile m) @ '']]'')
    \<and> makeLink \<lparr>title = ''Focus'', tfile = noteFile [] ''Deep Work'', isAlias = True\<rparr>
          = ''[[Deep Work|Focus]]''
    \<and> lineText = take wordStart lineText @ completedWord @ drop delimiterPos lineText
    \<and> getLine s' (line cur) = take wordStart lineText @ makeLink m @ drop delimiterPos lineText
    \<and> getLine s' (line cur) ! (wordStart + length (makeLink m)) = lineText ! delimiterPos
    \<and> (\<forall>n. n \<noteq> line cur \<longrightarrow> getLine s' n = getLine s n)
    \<and> getCursor s' = \<lparr>line = line cur, ch = wordStart + length (makeLink m) + 1\<rparr>
    \<and> ch (getCursor s') = min (length (getLine s' (line cur))) (wordStart + length (makeLink m) + 1)"
proof -
  from delim have tk: "length (take delimiterPos lineText) = delimiterPos" by simp
  from word obtain p where p: "take delimiterPos lineText = p @ completedWord"
    by (auto simp: suffix_def)
  with tk have lp: "length p = wordStart" and le: "length completedWord \<le> delimiterPos"
    unfolding wordStart by (metis add_diff_cancel_right' length_append, metis le_add2 length_append)
  have "take wordStart lineText = take wordStart (take delimiterPos lineText)"
    unfolding wordStart by (simp add: min_def)
  with p lp have tw: "take wordStart lineText = p" by simp
  have split: "lineText = take wordStart lineText @ completedWord @ drop delimiterPos lineText"
    using p tw by (metis append.assoc append_take_drop_id)
  have nl: "getLine s' (line cur) = take wordStart lineText @ makeLink m @ drop delimiterPos lineText"
    unfolding s' using cur lineText tk wordStart
    by (simp add: getLine_insertLinkForCompletedWord)
  have ws: "wordStart \<le> length lineText" using delim wordStart by simp
  have dl: "getLine s' (line cur) ! (wordStart + length (makeLink m)) = lineText ! delimiterPos"
    using delim ws by (simp add: nl nth_append min_def hd_drop_conv_nth[symmetric])
  have len: "length (getLine s' (line cur)) = wordStart + length (makeLink m) + (length lineText - delimiterPos)"
    using ws by (simp add: nl min_def)
  have cu: "getCursor s' = \<lparr>line = line cur,
      ch = min (length (getLine s' (line cur))) (wordStart + length (makeLink m) + 1)\<rparr>"
    unfolding s' using cur lineText tk wordStart
    by (simp add: getCursor_insertLinkForCompletedWord)
  have mn: "min (length (getLine s' (line cur))) (wordStart + length (makeLink m) + 1)
      = wordStart + length (makeLink m) + 1"
    using len delim by simp
  have oth: "\<forall>n. n \<noteq> line cur \<longrightarrow> getLine s' n = getLine s n"
    unfolding s' using cur by (simp add: getLine_insertLinkForCompletedWord)
  have fm: "makeLink m = (if isAlias m then ''[['' @ basename (tfile m) @ ''|'' @ title m @ '']]''
                       else ''[['' @ basename (tfile m) @ '']]'')"
    by (simp add: makeLink_def)
  have ex: "makeLink \<lparr>title = ''Focus'', tfile = noteFile [] ''Deep Work'', isAlias = True\<rparr>
          = ''[[Deep Work|Focus]]''"
    by (simp add: makeLink_def noteFile_def)
  from fm ex split nl dl oth cu mn show ?thesis by simp
qed

text \<open>
  For \<^verbatim>\<open>Note \<close> the link takes the columns 0 to 8 of the new line; the offset right
  behind the link is 8 and the source puts the cursor at 9, behind the space.
\<close>

theorem insertLinkForCompletedWord_cursor_counterexample:
  "getLine afterInsertion 0 = makeLink (titleMatch (noteFile [] ''Note'')) @ '' ''
   \<and> length (makeLink (titleMatch (noteFile [] ''Note''))) = 8
   \<and> ch (getCursor afterInsertion) = 9
   \<and> ch (getCursor afterInsertion)
       \<noteq> min (length (getLine afterInsertion 0)) (0 + length (makeLink (titleMatch (noteFile [] ''Note''))))"
  by (simp add: afterInsertion_def eval_defs)

theorem insertLinkForCompletedWord_applies_link_witness:
  "suffix ''Note'' (take 4 (getLine (initialState typingNote) 0))
   \<and> 4 < length (getLine (initialState typingNote) 0)
   \<and> getCursor (initialState typingNote) = \<lparr>line = 0, ch = 5\<rparr>
   \<and> getLine afterInsertion 0 = ''[[Note]] ''
   \<and> getCursor afterInsertion = \<lparr>line = 0, ch = 9\<rparr>"
proof -
  have c: "\<lparr>line = 0, ch = 5\<rparr> = getCursor (initialState typingNote)"
    and l: "''Note '' = getLine (initialState typingNote) (line \<lparr>line = 0, ch = 5\<rparr>)"
    by (simp_all add: eval_defs)
  have w: "suffix ''Note'' (take 4 ''Note '')" and d: "4 < length ''Note ''"
    by (simp_all add: suffix_def)
  from insertLinkForCompletedWord_applies_link
    [OF c l w d afterInsertion_def refl]
  have "getLine afterInsertion (line \<lparr>line = 0, ch = 5\<rparr>)
        = take (4 - length ''Note'') ''Note '' @ makeLink (titleMatch (noteFile [] ''Note''))
            @ drop 4 ''Note ''"
    and "getCursor afterInsertion = \<lparr>line = line \<lparr>line = 0, ch = 5\<rparr>,
          ch = 4 - length ''Note'' + length (makeLink (titleMatch (noteFile [] ''Note''))) + 1\<rparr>"
    by blast+
  then have "getLine afterInsertion 0 = ''[[Note]] ''"
    and "getCursor afterInsertion = \<lparr>line = 0, ch = 9\<rparr>"
    by (simp_all add: makeLink_def titleMatch_def noteFile_def)
  with c [symmetric] l [symmetric] w d show ?thesis by simp
qed

section \<open>Linking on word completion\<close>

lemma findMatches_pendingMatches [simp]:
  "findMatches (s\<lparr>pendingMatches := pm\<rparr>) typed cb = findMatches s typed cb"
  by (simp add: findMatches_def)

lemma trace_insertLinkForCompletedWord_neq:
  "trace (insertLinkForCompletedWord now w m d s) \<noteq> trace s"
  by (simp add: trace_insertLinkForCompletedWord)

text \<open>
  An editor change in autonomous or semiAutonomous mode that reaches the completion
  branch (linking is not suspended, the cursor is not inside a link, the text before the
  cursor has a fragment that trims to at least \<^verbatim>\<open>minWordLength\<close> characters, and the
  character just typed is a delimiter) writes if and only if the text before the
  delimiter has a completed word for which \<^verbatim>\<open>findMatches\<close> returns exactly one
  candidate; it then replaces the span before the delimiter by the link of that
  candidate, and otherwise leaves editor and ledger as they are.
\<close>

lemma handleEditorChange_completion:
  assumes cur: "cur = getCursor s"
    and lineText: "lineText = getLine s (line cur)"
    and cb: "currentBasename = (case currentFile of None \<Rightarrow> [] | Some f \<Rightarrow> basename f)"
    and mode: "mode (settings s) = autonomous \<or> mode (settings s) = semiAutonomous"
    and enabled: "\<not> isAutoLinkDisabled s"
    and outside: "\<not> isInsideLink lineText (ch cur)"
    and fragment: "matchFragment (take (ch cur) lineText) = Some fragment"
    and long: "minWordLength (settings s) \<le> int (length (trim fragment))"
    and typed: "0 < ch cur" "charAt lineText (ch cur - 1) = Some c" "isDelimiter c"
    and s': "s' = handleEditorChange now currentFile s"
  shows "(trace s' \<noteq> trace s) =
           (\<exists>completed. matchFragment (take (ch cur - 1) lineText) = Some completed
              \<and> length (findMatches s (trim completed) currentBasename) = 1)"
    and "\<forall>completed candidate.
           matchFragment (take (ch cur - 1) lineText) = Some completed
           \<and> findMatches s (trim completed) currentBasename = [candidate] \<longrightarrow>
             s' = clearPending (insertLinkForCompletedWord now (trim completed) candidate (ch cur - 1)
                    (s\<lparr>pendingMatches := (pendingMatches s)
                         (trim fragment \<mapsto> findMatches s (trim fragment) currentBasename)\<rparr>))"
    and "\<forall>completed candidate.
           matchFragment (take (ch cur - 1) lineText) = Some completed
           \<and> findMatches s (trim completed) currentBasename = [candidate] \<longrightarrow>
             getLine s' (line cur) =
                 take (ch cur - 1 - length (trim completed)) lineText @ makeLink candidate
                   @ drop (ch cur - 1) lineText"
    and "trace s' = trace s \<longrightarrow> editor s' = editor s \<and> undoStack s' = undoStack s"
proof -
  let ?s1 = "s\<lparr>pendingMatches := (pendingMatches s)
                (trim fragment \<mapsto> findMatches s (trim fragment) currentBasename)\<rparr>"
  let ?branch = "completionBranch now lineText currentBasename cur True ?s1"
  have h: "s' = (case ?branch of Some r \<Rightarrow> r
                 | None \<Rightarrow> modeSwitch now (trim fragment)
                     (findMatches s (trim fragment) currentBasename) cur ?s1)"
    using enabled outside fragment long typed
    unfolding s' handleEditorChange_def cur lineText cb
    by (simp add: Let_def)
  have ms: "modeSwitch now typed' ms cur ?s1 = closePopup ?s1" for typed' ms
    using mode by (auto simp: modeSwitch_def)
  have s1: "getLine ?s1 n = getLine s n" "getCursor ?s1 = getCursor s" for n
    by (simp_all add: getLine_def getCursor_def)
  have lt: "ch cur - 1 < length lineText"
    using typed(2) by (simp add: charAt_def split: if_splits)
  show g1: "(trace s' \<noteq> trace s) =
           (\<exists>completed. matchFragment (take (ch cur - 1) lineText) = Some completed
              \<and> length (findMatches s (trim completed) currentBasename) = 1)"
  proof (cases "matchFragment (take (ch cur - 1) lineText)")
    case None
    then have "?branch = None" using mode by (simp add: completionBranch_def)
    with h ms have "s' = closePopup ?s1" by simp
    then show ?thesis using None by (simp add: closePopup_def)
  next
    case (Some completed)
    show ?thesis
    proof (cases "length (findMatches s (trim completed) currentBasename) = 1")
      case True
      then have "?branch = Some (clearPending (insertLinkForCompletedWord now (trim completed)
          (findMatches s (trim completed) currentBasename ! 0) (ch cur - 1) ?s1))"
        using mode Some by (simp add: completionBranch_def Let_def)
      with h have "trace s' = trace (insertLinkForCompletedWord now (trim completed)
          (findMatches s (trim completed) currentBasename ! 0) (ch cur - 1) ?s1)"
        by (simp add: clearPending_def)
      with trace_insertLinkForCompletedWord_neq [of now _ _ _ ?s1] True Some
      show ?thesis by simp
    next
      case False
      then have "?branch = None" using mode Some by (simp add: completionBranch_def Let_def)
      with h ms have "s' = closePopup ?s1" by simp
      then show ?thesis using Some False by (simp add: closePopup_def)
    qed
  qed
  have g2: "\<forall>completed candidate.
           matchFragment (take (ch cur - 1) lineText) = Some completed
           \<and> findMatches s (trim completed) currentBasename = [candidate] \<longrightarrow>
             s' = clearPending (insertLinkForCompletedWord now (trim completed) candidate (ch cur - 1) ?s1)
             \<and> getLine s' (line cur) =
                 take (ch cur - 1 - length (trim completed)) lineText @ makeLink candidate
                   @ drop (ch cur - 1) lineText"
  proof (intro allI impI, elim conjE)
    fix completed candidate
    assume m: "matchFragment (take (ch cur - 1) lineText) = Some completed"
      and f: "findMatches s (trim completed) currentBasename = [candidate]"
    then have "?branch = Some (clearPending (insertLinkForCompletedWord now (trim completed)
          candidate (ch cur - 1) ?s1))"
      using mode by (simp add: completionBranch_def Let_def)
    with h have e: "s' = clearPending (insertLinkForCompletedWord now (trim completed)
          candidate (ch cur - 1) ?s1)" by simp
    have "getLine s' (line cur) =
        getLine (insertLinkForCompletedWord now (trim completed) candidate (ch cur - 1) ?s1) (line cur)"
      unfolding e by (simp add: clearPending_def getLine_def)
    also have "\<dots> = take (ch cur - 1 - length (trim completed)) lineText @ makeLink candidate
                   @ drop (ch cur - 1) lineText"
      using lt unfolding cur lineText
      by (simp add: getLine_insertLinkForCompletedWord s1 min_def)
    finally show "s' = clearPending (insertLinkForCompletedWord now (trim completed) candidate
          (ch cur - 1) ?s1) \<and> getLine s' (line cur) =
                 take (ch cur - 1 - length (trim completed)) lineText @ makeLink candidate
                   @ drop (ch cur - 1) lineText"
      using e by simp
  qed
  from g2 show "\<forall>completed candidate.
           matchFragment (take (ch cur - 1) lineText) = Some completed
           \<and> findMatches s (trim completed) currentBasename = [candidate] \<longrightarrow>
             s' = clearPending (insertLinkForCompletedWord now (trim completed) candidate (ch cur - 1) ?s1)"
    by blast
  from g2 show "\<forall>completed candidate.
           matchFragment (take (ch cur - 1) lineText) = Some completed
           \<and> findMatches s (trim completed) currentBasename = [candidate] \<longrightarrow>
             getLine s' (line cur) =
                 take (ch cur - 1 - length (trim completed)) lineText @ makeLink candidate
                   @ drop (ch cur - 1) lineText"
    by blast
  show "trace s' = trace s \<longrightarrow> editor s' = editor s \<and> undoStack s' = undoStack s"
  proof
    assume "trace s' = trace s"
    with g1 have no: "\<not> (\<exists>completed. matchFragment (take (ch cur - 1) lineText) = Some completed
              \<and> length (findMatches s (trim completed) currentBasename) = 1)" by simp
    have "?branch = None"
    proof (cases "matchFragment (take (ch cur - 1) lineText)")
      case None
      then show ?thesis using mode by (simp add: completionBranch_def)
    next
      case (Some completed)
      with no have "length (findMatches s (trim completed) currentBasename) \<noteq> 1" by simp
      then show ?thesis using mode Some by (simp add: completionBranch_def Let_def)
    qed
    with h ms have "s' = closePopup ?s1" by simp
    then show "editor s' = editor s \<and> undoStack s' = undoStack s" by (simp add: closePopup_def)
  qed
qed

lemmas index_defs = updateNoteList_def getRelevantFiles_def vaultOf_def DEFAULT_SETTINGS_def
  toLowerCase_def isUpper_def

lemma basename_noteFile: "basename (noteFile folder name) = name"
  by (simp add: noteFile_def)

lemma noteOnly_eval:
  "noteTitles noteOnly = [(''note'', noteFile [] ''Note''), (''today'', noteFile [] ''Today'')]"
  "aliases noteOnly = []" "settings noteOnly = DEFAULT_SETTINGS" "editor noteOnly = typingNote"
  "undoStack noteOnly = []" "trace noteOnly = []" "isAutoLinkDisabled noteOnly = False"
  by (simp_all add: noteOnly_def index_defs initialState_def noteFile_def)

lemma noteAndLonger_eval:
  "noteTitles noteAndLonger = [(''note'', noteFile [] ''Note''),
      (''note with space'', noteFile [] ''Note with Space''), (''today'', noteFile [] ''Today'')]"
  "aliases noteAndLonger = []" "settings noteAndLonger = DEFAULT_SETTINGS"
  "editor noteAndLonger = typingNote"
  "undoStack noteAndLonger = []" "trace noteAndLonger = []" "isAutoLinkDisabled noteAndLonger = False"
  by (simp_all add: noteAndLonger_def index_defs initialState_def noteFile_def)

lemma findMatches_noteOnly:
  "findMatches noteOnly ''Note'' ''Today'' = [titleMatch (noteFile [] ''Note'')]"
  by (simp add: findMatches_def noteOnly_eval DEFAULT_SETTINGS_def toLowerCase_def isUpper_def
      sliceTo_def titleMatch_def noteFile_def)

lemma findMatches_noteAndLonger:
  "findMatches noteAndLonger ''Note'' ''Today'' =
     [titleMatch (noteFile [] ''Note''), titleMatch (noteFile [] ''Note with Space'')]"
  by (simp add: findMatches_def noteAndLonger_eval DEFAULT_SETTINGS_def toLowerCase_def isUpper_def
      sliceTo_def titleMatch_def noteFile_def)

lemma typingNote_fragment:
  "matchFragment (take 5 ''Note '') = Some ''Note ''" "matchFragment (take 4 ''Note '') = Some ''Note''"
  "trim ''Note '' = ''Note''" "trim ''Note'' = ''Note''" "\<not> isInsideLink ''Note '' 5"
  "charAt ''Note '' 4 = Some (CHR '' '')" "isDelimiter (CHR '' '')"
  by (simp_all add: matchFragment_def isFragmentChar_def isWordChar_def isSpace_def trim_def
      isInsideLink_def lastIndexOfChar_def charAt_def isDelimiter_def)


lemma typingNote_completion:
  assumes e: "editor s = typingNote" and st: "settings s = DEFAULT_SETTINGS"
    and en: "\<not> isAutoLinkDisabled s"
  shows "(trace (handleEditorChange now (Some (noteFile [] ''Today'')) s) \<noteq> trace s) =
           (length (findMatches s ''Note'' ''Today'') = 1)"
    and "findMatches s ''Note'' ''Today'' = [candidate] \<Longrightarrow>
           getLine (handleEditorChange now (Some (noteFile [] ''Today'')) s) 0 = makeLink candidate @ '' ''"
    and "trace (handleEditorChange now (Some (noteFile [] ''Today'')) s) = trace s \<Longrightarrow>
           editor (handleEditorChange now (Some (noteFile [] ''Today'')) s) = editor s"
proof -
  have c: "\<lparr>line = 0, ch = 5\<rparr> = getCursor s"
    and l: "''Note '' = getLine s (line \<lparr>line = 0, ch = 5\<rparr>)"
    by (simp_all add: getCursor_def getLine_def e typingNote_def)
  have b: "''Today'' = (case Some (noteFile [] ''Today'') of None \<Rightarrow> [] | Some f \<Rightarrow> basename f)"
    by (simp add: basename_noteFile)
  have m: "mode (settings s) = autonomous \<or> mode (settings s) = semiAutonomous"
    and lg: "minWordLength (settings s) \<le> int (length (trim ''Note ''))"
    by (simp_all add: st DEFAULT_SETTINGS_def typingNote_fragment)
  have o: "\<not> isInsideLink ''Note '' (ch \<lparr>line = 0, ch = 5\<rparr>)"
    and f: "matchFragment (take (ch \<lparr>line = 0, ch = 5\<rparr>) ''Note '') = Some ''Note ''"
    and t: "0 < ch \<lparr>line = 0, ch = 5\<rparr>"
      "charAt ''Note '' (ch \<lparr>line = 0, ch = 5\<rparr> - 1) = Some (CHR '' '')"
    using typingNote_fragment by simp_all
  note r = handleEditorChange_completion [OF c l b m en o f lg t typingNote_fragment(7) refl, of now]
  have w: "matchFragment (take (ch \<lparr>line = 0, ch = 5\<rparr> - 1) ''Note '') = Some ''Note''"
    using typingNote_fragment by simp
  from r(1) w show "(trace (handleEditorChange now (Some (noteFile [] ''Today'')) s) \<noteq> trace s) =
           (length (findMatches s ''Note'' ''Today'') = 1)"
    by (simp add: typingNote_fragment)
  from r(4) show "trace (handleEditorChange now (Some (noteFile [] ''Today'')) s) = trace s \<Longrightarrow>
           editor (handleEditorChange now (Some (noteFile [] ''Today'')) s) = editor s"
    by simp
  assume "findMatches s ''Note'' ''Today'' = [candidate]"
  with r(3) w have "getLine (handleEditorChange now (Some (noteFile [] ''Today'')) s)
       (line \<lparr>line = 0, ch = 5\<rparr>) =
      take (ch \<lparr>line = 0, ch = 5\<rparr> - 1 - length (trim ''Note'')) ''Note '' @ makeLink candidate
        @ drop (ch \<lparr>line = 0, ch = 5\<rparr> - 1) ''Note ''"
    by (simp add: typingNote_fragment)
  then show "getLine (handleEditorChange now (Some (noteFile [] ''Today'')) s) 0
      = makeLink candidate @ '' ''"
    by (simp add: typingNote_fragment)
qed

lemma handleEditorChange_noteOnly:
  "getLine (handleEditorChange 1000 (Some (noteFile [] ''Today'')) noteOnly) 0 = ''[[Note]] ''"
  using typingNote_completion(2) [of noteOnly "titleMatch (noteFile [] ''Note'')" 1000]
  by (simp add: noteOnly_eval findMatches_noteOnly makeLink_def titleMatch_def noteFile_def)

lemma handleEditorChange_noteAndLonger:
  "getLine (handleEditorChange 1000 (Some (noteFile [] ''Today'')) noteAndLonger) 0 = ''Note ''"
  "trace (handleEditorChange 1000 (Some (noteFile [] ''Today'')) noteAndLonger) = []"
proof -
  from typingNote_completion(1) [of noteAndLonger 1000]
  show t: "trace (handleEditorChange 1000 (Some (noteFile [] ''Today'')) noteAndLonger) = []"
    by (simp add: noteAndLonger_eval findMatches_noteAndLonger)
  with typingNote_completion(3) [of noteAndLonger 1000]
  show "getLine (handleEditorChange 1000 (Some (noteFile [] ''Today'')) noteAndLonger) 0 = ''Note ''"
    by (simp add: noteAndLonger_eval getLine_def typingNote_def)
qed

lemmas string_eval_defs = matchFragment_def isFragmentChar_def isWordChar_def isSpace_def trim_def
  isInsideLink_def lastIndexOfChar_def charAt_def isDelimiter_def

text \<open>
  The word is found behind other text of the line: in \<^verbatim>\<open>x.Note \<close> the completed word
  is \<^verbatim>\<open>Note\<close>, the longest run of fragment characters before the space.
\<close>

lemma handleEditorChange_afterStop:
  "getLine (handleEditorChange 1000 (Some (noteFile [] ''Today'')) afterStop) 0 = ''x.[[Note]] ''"
proof -
  have c: "\<lparr>line = 0, ch = 7\<rparr> = getCursor afterStop"
    and l: "''x.Note '' = getLine afterStop (line \<lparr>line = 0, ch = 7\<rparr>)"
    by (simp_all add: afterStop_def getCursor_def getLine_def)
  have b: "''Today'' = (case Some (noteFile [] ''Today'') of None \<Rightarrow> [] | Some f \<Rightarrow> basename f)"
    by (simp add: basename_noteFile)
  have st: "settings afterStop = DEFAULT_SETTINGS" "\<not> isAutoLinkDisabled afterStop"
    by (simp_all add: afterStop_def noteOnly_eval)
  have fm: "findMatches afterStop ''Note'' ''Today'' = [titleMatch (noteFile [] ''Note'')]"
    using findMatches_noteOnly by (simp add: findMatches_def afterStop_def)
  have m: "mode (settings afterStop) = autonomous \<or> mode (settings afterStop) = semiAutonomous"
    and lg: "minWordLength (settings afterStop) \<le> int (length (trim ''Note ''))"
    by (simp_all add: st DEFAULT_SETTINGS_def string_eval_defs)
  have o: "\<not> isInsideLink ''x.Note '' (ch \<lparr>line = 0, ch = 7\<rparr>)"
    and f: "matchFragment (take (ch \<lparr>line = 0, ch = 7\<rparr>) ''x.Note '') = Some ''Note ''"
    and t: "0 < ch \<lparr>line = 0, ch = 7\<rparr>"
      "charAt ''x.Note '' (ch \<lparr>line = 0, ch = 7\<rparr> - 1) = Some (CHR '' '')"
      "isDelimiter (CHR '' '')"
    and w: "matchFragment (take (ch \<lparr>line = 0, ch = 7\<rparr> - 1) ''x.Note '') = Some ''Note''"
      "trim ''Note'' = ''Note''"
    by (simp_all add: string_eval_defs)
  from handleEditorChange_completion(3) [OF c l b m st(2) o f lg t refl, of 1000] w fm
  have "getLine (handleEditorChange 1000 (Some (noteFile [] ''Today'')) afterStop)
       (line \<lparr>line = 0, ch = 7\<rparr>) =
      take (ch \<lparr>line = 0, ch = 7\<rparr> - 1 - length ''Note'') ''x.Note ''
        @ makeLink (titleMatch (noteFile [] ''Note'')) @ drop (ch \<lparr>line = 0, ch = 7\<rparr> - 1) ''x.Note ''"
    by simp
  then show ?thesis by (simp add: makeLink_def titleMatch_def noteFile_def)
qed

subsection \<open>Punctuation as the delimiter\<close>

text \<open>
  The delimiters of the word-completion test that are fragment characters as well are
  the white space and the hyphen: no delimiter is a character of \<^verbatim>\<open>\w\<close>.
\<close>

lemma delimiters_not_word:
  "\<forall>c \<in> set ([CHR 0x09, CHR 0x0A, CHR 0x0B, CHR 0x0C, CHR 0x0D, CHR 0x20, CHR 0xA0] @
       (''.,!?;:()[]{}|/<>@#$%^&*+=~-'' @ [CHR 0x5C, CHR 0x60, CHR 0x22, CHR 0x27])).
     \<not> isWordChar c"
  by (simp add: isWordChar_def)

lemma isDelimiter_not_word:
  assumes "isDelimiter c"
  shows "\<not> isWordChar c"
proof -
  from assms have "c \<in> set ([CHR 0x09, CHR 0x0A, CHR 0x0B, CHR 0x0C, CHR 0x0D, CHR 0x20, CHR 0xA0] @
       (''.,!?;:()[]{}|/<>@#$%^&*+=~-'' @ [CHR 0x5C, CHR 0x60, CHR 0x22, CHR 0x27]))"
    unfolding isDelimiter_def isSpace_def by (simp only: set_append Un_iff)
  with delimiters_not_word show ?thesis by (rule bspec)
qed

lemma hyphen_delimiter: "isDelimiter (CHR ''-'')"
  by (simp add: isDelimiter_def)

lemma delimiter_in_fragment_class:
  "(isDelimiter c \<and> isFragmentChar c) = (isSpace c \<or> c = CHR ''-'')"
proof
  assume "isDelimiter c \<and> isFragmentChar c"
  then show "isSpace c \<or> c = CHR ''-''"
    using isDelimiter_not_word [of c] by (auto simp: isFragmentChar_def)
next
  assume "isSpace c \<or> c = CHR ''-''"
  then show "isDelimiter c \<and> isFragmentChar c"
    using hyphen_delimiter by (auto simp: isDelimiter_def isFragmentChar_def)
qed

lemma matchFragment_last:
  "s \<noteq> [] \<Longrightarrow> \<not> isFragmentChar (last s) \<Longrightarrow> matchFragment s = None"
  by (cases s rule: rev_cases) (simp_all add: matchFragment_def)

text \<open>
  After any other delimiter the text before the cursor ends in a character outside the
  fragment class, the first \<^verbatim>\<open>match\<close> of the handler is \<^verbatim>\<open>null\<close>, and the handler
  returns before it tests for a completed word: whatever the index holds, it closes the
  popup, clears the pending matches and writes nothing.
\<close>

lemma handleEditorChange_after_punctuation:
  assumes pos: "0 < ch (getCursor s)"
    and c: "charAt (getLine s (line (getCursor s))) (ch (getCursor s) - 1) = Some c"
    and d: "isDelimiter c" "\<not> isSpace c" "c \<noteq> CHR ''-''"
    and en: "\<not> isAutoLinkDisabled s"
    and out: "\<not> isInsideLink (getLine s (line (getCursor s))) (ch (getCursor s))"
  shows "handleEditorChange now currentFile s = clearPending (closePopup s)"
proof -
  let ?l = "getLine s (line (getCursor s))"
  let ?n = "ch (getCursor s)"
  from c have lt: "?n - 1 < length ?l" and ce: "?l ! (?n - 1) = c"
    by (simp_all add: charAt_def split: if_splits)
  from pos have "take ?n ?l = take (Suc (?n - 1)) ?l" by simp
  also have "\<dots> = take (?n - 1) ?l @ [c]"
    using lt ce by (simp add: take_Suc_conv_app_nth)
  finally have t: "take ?n ?l = take (?n - 1) ?l @ [c]" .
  from d delimiter_in_fragment_class [of c] have "\<not> isFragmentChar c" by blast
  with t have "matchFragment (take ?n ?l) = None"
    by (simp add: matchFragment_last)
  with en out show ?thesis
    by (simp add: handleEditorChange_def Let_def)
qed

lemma dotTyped_eval:
  "settings dotTyped = DEFAULT_SETTINGS" "isAutoLinkDisabled dotTyped = False"
  "undoStack dotTyped = []" "trace dotTyped = []"
  "getLine dotTyped 0 = ''Note.''" "getCursor dotTyped = \<lparr>line = 0, ch = 5\<rparr>"
  by (simp_all add: dotTyped_def noteOnly_eval getLine_def getCursor_def)

lemma findMatches_dotTyped:
  "findMatches dotTyped ''Note'' ''Today'' = [titleMatch (noteFile [] ''Note'')]"
  using findMatches_noteOnly by (simp add: findMatches_def dotTyped_def)

text \<open>
  C1. In autonomous mode, with the default settings and \<^verbatim>\<open>Note\<close> the only title of the
  index that starts so, the user types \<^verbatim>\<open>Note.\<close> in the note \<^verbatim>\<open>Today\<close>. The full stop
  is a delimiter of the handler's word-completion test, it completes the word
  \<^verbatim>\<open>Note\<close>, which is not shorter than \<^verbatim>\<open>minWordLength\<close>, and \<^verbatim>\<open>findMatches\<close> returns
  exactly one candidate for that word. The handler inserts no link all the same: the
  text before the cursor has no fragment, so it returns early, having closed the popup
  and cleared the pending matches; the line is still \<^verbatim>\<open>Note.\<close>, the ledger is empty
  and nothing was written. The two changes the claim names behave as it says: for
  \<^verbatim>\<open>Note \<close> the line becomes \<^verbatim>\<open>[[Note]] \<close> when \<^verbatim>\<open>Note\<close> is the only such title, and
  stays \<^verbatim>\<open>Note \<close>, nothing written, when \<^verbatim>\<open>Note with Space\<close> is a title too.
\<close>

theorem handleEditorChange_full_stop_inserts_no_link:
  "mode (settings dotTyped) = autonomous
   \<and> \<not> isAutoLinkDisabled dotTyped
   \<and> getLine dotTyped 0 = ''Note.'' \<and> getCursor dotTyped = \<lparr>line = 0, ch = 5\<rparr>
   \<and> \<not> isInsideLink ''Note.'' 5
   \<and> charAt ''Note.'' 4 = Some (CHR ''.'') \<and> isDelimiter (CHR ''.'')
   \<and> matchFragment (take 4 ''Note.'') = Some ''Note'' \<and> trim ''Note'' = ''Note''
   \<and> minWordLength (settings dotTyped) \<le> int (length ''Note'')
   \<and> findMatches dotTyped ''Note'' ''Today'' = [titleMatch (noteFile [] ''Note'')]
   \<and> matchFragment (take 5 ''Note.'') = None
   \<and> handleEditorChange 1000 (Some (noteFile [] ''Today'')) dotTyped
       = clearPending (closePopup dotTyped)
   \<and> getLine (handleEditorChange 1000 (Some (noteFile [] ''Today'')) dotTyped) 0 = ''Note.''
   \<and> undoStack (handleEditorChange 1000 (Some (noteFile [] ''Today'')) dotTyped) = []
   \<and> trace (handleEditorChange 1000 (Some (noteFile [] ''Today'')) dotTyped) = []
   \<and> getLine (handleEditorChange 1000 (Some (noteFile [] ''Today'')) noteOnly) 0 = ''[[Note]] ''
   \<and> getLine (handleEditorChange 1000 (Some (noteFile [] ''Today'')) noteAndLonger) 0 = ''Note ''
   \<and> trace (handleEditorChange 1000 (Some (noteFile [] ''Today'')) noteAndLonger) = []"
proof -
  have h: "handleEditorChange 1000 (Some (noteFile [] ''Today'')) dotTyped
      = clearPending (closePopup dotTyped)"
    by (simp add: string_eval_defs handleEditorChange_def Let_def dotTyped_def getCursor_def
        getLine_def noteOnly_eval)
  have a: "mode (settings dotTyped) = autonomous"
    "minWordLength (settings dotTyped) \<le> int (length ''Note'')"
    by (simp_all add: dotTyped_eval DEFAULT_SETTINGS_def)
  have b: "\<not> isInsideLink ''Note.'' 5" "charAt ''Note.'' 4 = Some (CHR ''.'')" "isDelimiter (CHR ''.'')"
    "matchFragment (take 4 ''Note.'') = Some ''Note''" "trim ''Note'' = ''Note''"
    "matchFragment (take 5 ''Note.'') = None"
    by (simp_all add: string_eval_defs)
  have r: "getLine (clearPending (closePopup dotTyped)) 0 = ''Note.''"
    "undoStack (clearPending (closePopup dotTyped)) = []"
    "trace (clearPending (closePopup dotTyped)) = []"
    by (simp_all add: clearPending_def closePopup_def getLine_def dotTyped_def noteOnly_eval)
  show ?thesis
    unfolding h
    using a b r dotTyped_eval findMatches_dotTyped handleEditorChange_noteOnly
      handleEditorChange_noteAndLonger
    by (intro conjI) simp_all
qed

section \<open>Implicit undo on Backspace and Delete\<close>










section \<open>What the resolver returns\<close>

lemma set_update_cases:
  "(k', v') \<in> set (AList.update k v al) \<Longrightarrow> (k', v') = (k, v) \<or> (k', v') \<in> set al"
  by (induction al) (auto split: if_splits)

lemma indexFiles_titles:
  assumes "distinct (map fst ts)"
    and "\<forall>(k, f) \<in> set ts. k = normalizeKey (caseSensitive st) (basename f)"
  shows "distinct (map fst (fst (indexFiles st cache fs (ts, al))))
     \<and> (\<forall>(k, f) \<in> set (fst (indexFiles st cache fs (ts, al))).
           k = normalizeKey (caseSensitive st) (basename f))"
  using assms
proof (induction fs arbitrary: ts al)
  case Nil
  then show ?case by simp
next
  case (Cons f fs)
  let ?ts = "AList.update (if caseSensitive st then basename f else toLowerCase (basename f)) f ts"
  have d: "distinct (map fst ?ts)" using Cons.prems(1) by (rule distinct_update)
  have k: "\<forall>(k, f) \<in> set ?ts. k = normalizeKey (caseSensitive st) (basename f)"
    using Cons.prems(2) by (auto dest!: set_update_cases simp: normalizeKey_def)
  from Cons.IH [OF d k] show ?case by simp
qed

lemma updateNoteList_titles:
  "distinct (map fst (noteTitles (updateNoteList vault s)))
   \<and> (\<forall>(k, f) \<in> set (noteTitles (updateNoteList vault s)).
         k = normalizeKey (caseSensitive (settings s)) (basename f))"
  using indexFiles_titles [of "[]" "settings s" "fileCache vault" "getRelevantFiles vault s" "[]"]
  by (simp add: updateNoteList_def Let_def)

lemma keyed_distinct_values:
  assumes "distinct (map fst ts)" and "\<forall>(k, f) \<in> set ts. k = g f"
  shows "distinct (map snd ts)"
proof -
  from assms(2) have "map fst ts = map g (map snd ts)" by (induction ts) auto
  with assms(1) show ?thesis by (metis distinct_map)
qed

lemma titleLoop_filter:
  "titleLoop cs key cur ts acc =
     acc @ map (\<lambda>(t, f). \<lparr>title = basename f, tfile = f, isAlias = False\<rparr>)
             (filter (\<lambda>(t, f). t \<noteq> (if cs then cur else toLowerCase cur) \<and> prefix key t) ts)"
proof (induction ts arbitrary: acc)
  case Nil
  show ?case by simp
next
  case (Cons entry ts)
  obtain t f where entry: "entry = (t, f)" by (cases entry) auto
  show ?case unfolding entry by (simp add: Cons.IH)
qed

lemma aliasLoop_extra:
  "\<exists>extra. aliasLoop key cur al acc = acc @ extra
     \<and> (\<forall>m \<in> set extra. isAlias m \<and> basename (tfile m) \<noteq> cur \<and> prefix key (title m))
     \<and> subseq (map (\<lambda>m. (title m, tfile m)) extra) al
     \<and> (distinct (map tfile acc) \<longrightarrow> distinct (map tfile (acc @ extra)))"
proof (induction al arbitrary: acc)
  case Nil
  show ?case by simp
next
  case (Cons entry al)
  obtain a f where entry: "entry = (a, f)" by (cases entry) auto
  show ?case
  proof (cases "basename f \<noteq> cur \<and> prefix key a \<and> find (\<lambda>m. tfile m = f) acc = None")
    case True
    let ?m = "\<lparr>title = a, tfile = f, isAlias = True\<rparr>"
    from Cons.IH [of "acc @ [?m]"] obtain extra where
      e: "aliasLoop key cur al (acc @ [?m]) = (acc @ [?m]) @ extra"
      and p: "\<forall>m \<in> set extra. isAlias m \<and> basename (tfile m) \<noteq> cur \<and> prefix key (title m)"
      and s: "subseq (map (\<lambda>m. (title m, tfile m)) extra) al"
      and d: "distinct (map tfile (acc @ [?m])) \<longrightarrow> distinct (map tfile ((acc @ [?m]) @ extra))"
      by blast
    from True have nf: "f \<notin> tfile ` set acc" by (auto simp: find_None_iff)
    have "aliasLoop key cur (entry # al) acc = acc @ (?m # extra)"
      using True e by (simp add: entry)
    moreover have "\<forall>m \<in> set (?m # extra). isAlias m \<and> basename (tfile m) \<noteq> cur \<and> prefix key (title m)"
      using True p by simp
    moreover have "subseq (map (\<lambda>m. (title m, tfile m)) (?m # extra)) (entry # al)"
      using s by (simp add: entry)
    moreover have "distinct (map tfile acc) \<longrightarrow> distinct (map tfile (acc @ (?m # extra)))"
      using d nf by simp
    ultimately show ?thesis by blast
  next
    case False
    from Cons.IH [of acc] obtain extra where
      e: "aliasLoop key cur al acc = acc @ extra"
      and p: "\<forall>m \<in> set extra. isAlias m \<and> basename (tfile m) \<noteq> cur \<and> prefix key (title m)"
      and s: "subseq (map (\<lambda>m. (title m, tfile m)) extra) al"
      and d: "distinct (map tfile acc) \<longrightarrow> distinct (map tfile (acc @ extra))"
      by blast
    have "aliasLoop key cur (entry # al) acc = acc @ extra"
      using False e by (auto simp: entry)
    moreover have "subseq (map (\<lambda>m. (title m, tfile m)) extra) (entry # al)"
      using s by (rule list_emb_Cons)
    ultimately show ?thesis using p d by blast
  qed
qed

lemma subseq_in_set: "subseq xs ys \<Longrightarrow> x \<in> set xs \<Longrightarrow> x \<in> set ys"
  using list_emb_set [of "(=)" xs ys x] by auto

lemma sliceTo_take: "0 \<le> n \<Longrightarrow> sliceTo xs n = take (nat n) xs"
  by (simp add: sliceTo_def)

lemma findMatches_shape:
  assumes d: "distinct (map fst (noteTitles s))"
    and k: "\<forall>(k, f) \<in> set (noteTitles s). k = normalizeKey (caseSensitive (settings s)) (basename f)"
    and n: "0 \<le> maxSuggestions (settings s)"
  shows "\<exists>ts as. findMatches s typed cur = ts @ as
     \<and> length (ts @ as) \<le> nat (maxSuggestions (settings s))
     \<and> (\<forall>m \<in> set ts. \<not> isAlias m \<and> title m = basename (tfile m)
           \<and> (normalizeKey (caseSensitive (settings s)) (basename (tfile m)), tfile m)
                \<in> set (noteTitles s)
           \<and> prefix (normalizeKey (caseSensitive (settings s)) typed)
                (normalizeKey (caseSensitive (settings s)) (basename (tfile m)))
           \<and> normalizeKey (caseSensitive (settings s)) (basename (tfile m))
                \<noteq> normalizeKey (caseSensitive (settings s)) cur)
     \<and> (\<forall>m \<in> set as. isAlias m \<and> basename (tfile m) \<noteq> cur
           \<and> (title m, tfile m) \<in> set (aliases s)
           \<and> prefix (normalizeKey (caseSensitive (settings s)) typed) (title m))
     \<and> distinct (map tfile (ts @ as))
     \<and> subseq (map (\<lambda>m. (normalizeKey (caseSensitive (settings s)) (basename (tfile m)), tfile m)) ts)
          (noteTitles s)
     \<and> subseq (map (\<lambda>m. (title m, tfile m)) as) (aliases s)"
proof -
  let ?cs = "caseSensitive (settings s)"
  let ?key = "normalizeKey ?cs typed"
  let ?p = "\<lambda>(t, f). t \<noteq> normalizeKey ?cs cur \<and> prefix ?key t"
  let ?mk = "\<lambda>(t, f). \<lparr>title = basename f, tfile = f, isAlias = False\<rparr>"
  let ?kf = "\<lambda>m. (normalizeKey ?cs (basename (tfile m)), tfile m)"
  let ?T = "map ?mk (filter ?p (noteTitles s))"
  let ?n = "nat (maxSuggestions (settings s))"
  have tl: "titleLoop ?cs ?key cur (noteTitles s) [] = ?T"
    by (simp add: titleLoop_filter normalizeKey_def)
  from aliasLoop_extra [of ?key cur "aliases s" ?T] obtain A where
    al: "aliasLoop ?key cur (aliases s) ?T = ?T @ A"
    and ap: "\<forall>m \<in> set A. isAlias m \<and> basename (tfile m) \<noteq> cur \<and> prefix ?key (title m)"
    and as: "subseq (map (\<lambda>m. (title m, tfile m)) A) (aliases s)"
    and ad: "distinct (map tfile ?T) \<longrightarrow> distinct (map tfile (?T @ A))"
    by blast
  have fm: "findMatches s typed cur = take ?n ?T @ take (?n - length ?T) A"
    using n tl al by (simp add: findMatches_def Let_def sliceTo_take normalizeKey_def)
  have kfT: "map ?kf ?T = filter ?p (noteTitles s)"
  proof -
    have "map ?kf ?T = map (\<lambda>(t, f). (normalizeKey ?cs (basename f), f)) (filter ?p (noteTitles s))"
      by (simp add: case_prod_unfold)
    also have "\<dots> = map (\<lambda>e. e) (filter ?p (noteTitles s))"
      using k by (intro map_cong refl) auto
    finally show ?thesis by simp
  qed
  have tprops: "\<not> isAlias m \<and> title m = basename (tfile m)
           \<and> (normalizeKey ?cs (basename (tfile m)), tfile m) \<in> set (noteTitles s)
           \<and> prefix ?key (normalizeKey ?cs (basename (tfile m)))
           \<and> normalizeKey ?cs (basename (tfile m)) \<noteq> normalizeKey ?cs cur"
    if "m \<in> set ?T" for m
  proof -
    from that obtain e where e: "e \<in> set (noteTitles s)" "?p e" "m = ?mk e" by auto
    obtain t f where tf: "e = (t, f)" by (cases e) auto
    from e(1) k tf have "t = normalizeKey ?cs (basename f)" by auto
    with e tf show ?thesis by simp
  qed
  have dT: "distinct (map tfile ?T)"
  proof -
    have e: "map tfile ?T = map snd (filter ?p (noteTitles s))"
      by (simp add: case_prod_unfold)
    have "distinct (map snd (noteTitles s))"
      using d k by (rule keyed_distinct_values)
    then have "distinct (map snd (filter ?p (noteTitles s)))"
      by (rule distinct_map_filter)
    then show ?thesis by (simp only: e)
  qed
  have sT: "subseq (map ?kf (take ?n ?T)) (noteTitles s)"
  proof -
    have "map ?kf (take ?n ?T) = take ?n (filter ?p (noteTitles s))"
      by (simp only: take_map [symmetric] kfT)
    moreover have "subseq (take ?n (filter ?p (noteTitles s))) (filter ?p (noteTitles s))"
      by (rule prefix_imp_subseq) (rule take_is_prefix)
    moreover have "subseq (filter ?p (noteTitles s)) (noteTitles s)"
      by (rule subseq_filter_left)
    ultimately show ?thesis by (simp only: subseq_order.order_trans)
  qed
  have sA: "subseq (map (\<lambda>m. (title m, tfile m)) (take (?n - length ?T) A)) (aliases s)"
  proof -
    have "subseq (take (?n - length ?T) A) A"
      by (rule prefix_imp_subseq) (rule take_is_prefix)
    then have "subseq (map (\<lambda>m. (title m, tfile m)) (take (?n - length ?T) A))
        (map (\<lambda>m. (title m, tfile m)) A)"
      by (rule subseq_map)
    then show ?thesis using as by (rule subseq_order.order_trans)
  qed
  have aIn: "(title m, tfile m) \<in> set (aliases s)" if "m \<in> set A" for m
  proof -
    from that have "(title m, tfile m) \<in> set (map (\<lambda>m. (title m, tfile m)) A)" by auto
    with as show ?thesis by (rule subseq_in_set)
  qed
  have dAll: "distinct (map tfile (take ?n ?T @ take (?n - length ?T) A))"
  proof -
    from ad dT have "distinct (map tfile (?T @ A))" by blast
    then have "distinct (take ?n (map tfile (?T @ A)))" by (rule distinct_take)
    then have "distinct (map tfile (take ?n (?T @ A)))" by (simp only: take_map)
    then show ?thesis by (simp only: take_append)
  qed
  have len: "length (take ?n ?T @ take (?n - length ?T) A) \<le> ?n" by simp
  have tp: "\<forall>m \<in> set (take ?n ?T). \<not> isAlias m \<and> title m = basename (tfile m)
           \<and> (normalizeKey ?cs (basename (tfile m)), tfile m) \<in> set (noteTitles s)
           \<and> prefix ?key (normalizeKey ?cs (basename (tfile m)))
           \<and> normalizeKey ?cs (basename (tfile m)) \<noteq> normalizeKey ?cs cur"
  proof
    fix m
    assume "m \<in> set (take ?n ?T)"
    then have "m \<in> set ?T" by (rule in_set_takeD)
    then show "\<not> isAlias m \<and> title m = basename (tfile m)
           \<and> (normalizeKey ?cs (basename (tfile m)), tfile m) \<in> set (noteTitles s)
           \<and> prefix ?key (normalizeKey ?cs (basename (tfile m)))
           \<and> normalizeKey ?cs (basename (tfile m)) \<noteq> normalizeKey ?cs cur"
      by (rule tprops)
  qed
  have app: "\<forall>m \<in> set (take (?n - length ?T) A). isAlias m \<and> basename (tfile m) \<noteq> cur
           \<and> (title m, tfile m) \<in> set (aliases s) \<and> prefix ?key (title m)"
  proof
    fix m
    assume "m \<in> set (take (?n - length ?T) A)"
    then have "m \<in> set A" by (rule in_set_takeD)
    with ap aIn show "isAlias m \<and> basename (tfile m) \<noteq> cur
           \<and> (title m, tfile m) \<in> set (aliases s) \<and> prefix ?key (title m)"
      by simp
  qed
  let ?ts = "take ?n ?T"
  let ?as = "take (?n - length ?T) A"
  have "findMatches s typed cur = ?ts @ ?as
     \<and> length (?ts @ ?as) \<le> nat (maxSuggestions (settings s))
     \<and> (\<forall>m \<in> set ?ts. \<not> isAlias m \<and> title m = basename (tfile m)
           \<and> (normalizeKey (caseSensitive (settings s)) (basename (tfile m)), tfile m)
                \<in> set (noteTitles s)
           \<and> prefix (normalizeKey (caseSensitive (settings s)) typed)
                (normalizeKey (caseSensitive (settings s)) (basename (tfile m)))
           \<and> normalizeKey (caseSensitive (settings s)) (basename (tfile m))
                \<noteq> normalizeKey (caseSensitive (settings s)) cur)
     \<and> (\<forall>m \<in> set ?as. isAlias m \<and> basename (tfile m) \<noteq> cur
           \<and> (title m, tfile m) \<in> set (aliases s)
           \<and> prefix (normalizeKey (caseSensitive (settings s)) typed) (title m))
     \<and> distinct (map tfile (?ts @ ?as))
     \<and> subseq (map (\<lambda>m. (normalizeKey (caseSensitive (settings s)) (basename (tfile m)), tfile m)) ?ts)
          (noteTitles s)
     \<and> subseq (map (\<lambda>m. (title m, tfile m)) ?as) (aliases s)"
    using fm len tp app dAll sT sA by (intro conjI)
  then show ?thesis by - (rule exI, rule exI, assumption)
qed

lemmas index_eval_defs = updateNoteList_def getRelevantFiles_def vaultOf_def DEFAULT_SETTINGS_def
  toLowerCase_def isUpper_def initialState_def noteFile_def

lemma projectNotes_findMatches:
  "findMatches projectNotes ''proj'' ''Today'' = [titleMatch (noteFile [] ''Project Plan'')]"
  "findMatches projectNotesCaseSensitive ''proj'' ''Today'' = []"
  "findMatches projectNotesCaseSensitive ''Proj'' ''Today'' = [titleMatch (noteFile [] ''Project Plan'')]"
  by (simp_all add: projectNotes_def projectNotesCaseSensitive_def index_eval_defs findMatches_def
      sliceTo_def titleMatch_def)

lemma focusNotes_eval:
  "noteTitles focusNotes = [(''deep work'', noteFile [] ''Deep Work''),
      (''focus time'', noteFile [] ''Focus Time''), (''today'', noteFile [] ''Today'')]"
  "aliases focusNotes = [(''focus'', noteFile [] ''Deep Work''), (''flow'', noteFile [] ''Deep Work'')]"
  "settings focusNotes = DEFAULT_SETTINGS"
  by (simp_all add: focusNotes_def focusVault_def index_eval_defs trim_def isSpace_def)

lemma focusNotes_findMatches:
  "findMatches focusNotes ''F'' ''Today'' =
     [titleMatch (noteFile [] ''Focus Time''),
      \<lparr>title = ''focus'', tfile = noteFile [] ''Deep Work'', isAlias = True\<rparr>]"
  by (simp add: findMatches_def focusNotes_eval DEFAULT_SETTINGS_def toLowerCase_def isUpper_def
      sliceTo_def titleMatch_def noteFile_def)

text \<open>
  C2. On an index built by \<^verbatim>\<open>updateNoteList\<close> and for a limit \<^verbatim>\<open>maxSuggestions\<close> that is
  not negative, \<^verbatim>\<open>findMatches\<close> returns at most \<^verbatim>\<open>maxSuggestions\<close> candidates. A title
  candidate shows the basename of its file, stands in the index under the normalized
  basename, and this key starts with the normalized typed text; its title is not the
  current document's. An alias candidate stands in the alias index under a key that
  starts with the normalized typed text. No candidate targets a file with the basename
  of the current document, no file is the target of two candidates, and the result is
  its title candidates, in the order of \<^verbatim>\<open>noteTitles\<close>, followed by its alias candidates,
  in the order of \<^verbatim>\<open>aliases\<close>. With the default settings \<^verbatim>\<open>proj\<close> finds
  \<^verbatim>\<open>Project Plan\<close>; with case-sensitive matching it does not.
\<close>

theorem findMatches_properties:
  assumes st: "settings s = settings s0"
    and ti: "noteTitles s = noteTitles (updateNoteList vault s0)"
    and al: "aliases s = aliases (updateNoteList vault s0)"
    and mx: "0 \<le> maxSuggestions (settings s)"
    and found: "found = findMatches s typed currentBasename"
    and cs: "cs = caseSensitive (settings s)"
  shows "length found \<le> nat (maxSuggestions (settings s))
    \<and> (\<forall>m \<in> set found. \<not> isAlias m \<longrightarrow>
          title m = basename (tfile m)
          \<and> (normalizeKey cs (basename (tfile m)), tfile m) \<in> set (noteTitles s)
          \<and> prefix (normalizeKey cs typed) (normalizeKey cs (basename (tfile m)))
          \<and> title m \<noteq> currentBasename)
    \<and> (\<forall>m \<in> set found. isAlias m \<longrightarrow>
          (title m, tfile m) \<in> set (aliases s) \<and> prefix (normalizeKey cs typed) (title m))
    \<and> (\<forall>m \<in> set found. basename (tfile m) \<noteq> currentBasename)
    \<and> distinct (map tfile found)
    \<and> (\<exists>ts as. found = ts @ as \<and> (\<forall>m \<in> set ts. \<not> isAlias m) \<and> (\<forall>m \<in> set as. isAlias m)
          \<and> subseq (map (\<lambda>m. (normalizeKey cs (basename (tfile m)), tfile m)) ts) (noteTitles s)
          \<and> subseq (map (\<lambda>m. (title m, tfile m)) as) (aliases s))
    \<and> findMatches projectNotes ''proj'' ''Today'' = [titleMatch (noteFile [] ''Project Plan'')]
    \<and> findMatches projectNotesCaseSensitive ''proj'' ''Today'' = []"
proof -
  from updateNoteList_titles [of vault s0] st ti
  have d: "distinct (map fst (noteTitles s))"
    and k: "\<forall>(k, f) \<in> set (noteTitles s). k = normalizeKey (caseSensitive (settings s)) (basename f)"
    by simp_all
  from findMatches_shape [OF d k mx, of typed currentBasename] obtain ts as where
    f: "found = ts @ as"
    and len: "length (ts @ as) \<le> nat (maxSuggestions (settings s))"
    and tp: "\<forall>m \<in> set ts. \<not> isAlias m \<and> title m = basename (tfile m)
           \<and> (normalizeKey cs (basename (tfile m)), tfile m) \<in> set (noteTitles s)
           \<and> prefix (normalizeKey cs typed) (normalizeKey cs (basename (tfile m)))
           \<and> normalizeKey cs (basename (tfile m)) \<noteq> normalizeKey cs currentBasename"
    and ap: "\<forall>m \<in> set as. isAlias m \<and> basename (tfile m) \<noteq> currentBasename
           \<and> (title m, tfile m) \<in> set (aliases s)
           \<and> prefix (normalizeKey cs typed) (title m)"
    and di: "distinct (map tfile (ts @ as))"
    and sT: "subseq (map (\<lambda>m. (normalizeKey cs (basename (tfile m)), tfile m)) ts) (noteTitles s)"
    and sA: "subseq (map (\<lambda>m. (title m, tfile m)) as) (aliases s)"
    unfolding found cs by blast
  have tne: "basename (tfile m) \<noteq> currentBasename \<and> title m \<noteq> currentBasename"
    if "m \<in> set ts" for m
    using tp that by auto
  have c1: "length found \<le> nat (maxSuggestions (settings s))" using f len by simp
  have c2: "\<forall>m \<in> set found. \<not> isAlias m \<longrightarrow>
          title m = basename (tfile m)
          \<and> (normalizeKey cs (basename (tfile m)), tfile m) \<in> set (noteTitles s)
          \<and> prefix (normalizeKey cs typed) (normalizeKey cs (basename (tfile m)))
          \<and> title m \<noteq> currentBasename"
    using f tp ap tne by auto
  have c3: "\<forall>m \<in> set found. isAlias m \<longrightarrow>
          (title m, tfile m) \<in> set (aliases s) \<and> prefix (normalizeKey cs typed) (title m)"
    using f tp ap by auto
  have c4: "\<forall>m \<in> set found. basename (tfile m) \<noteq> currentBasename"
    using f tne ap by auto
  have c5: "distinct (map tfile found)" using f di by simp
  have c6: "\<exists>ts as. found = ts @ as \<and> (\<forall>m \<in> set ts. \<not> isAlias m) \<and> (\<forall>m \<in> set as. isAlias m)
          \<and> subseq (map (\<lambda>m. (normalizeKey cs (basename (tfile m)), tfile m)) ts) (noteTitles s)
          \<and> subseq (map (\<lambda>m. (title m, tfile m)) as) (aliases s)"
    using f tp ap sT sA by blast
  from c1 c2 c3 c4 c5 c6 projectNotes_findMatches(1,2) show ?thesis by (intro conjI)
qed

theorem findMatches_properties_witness:
  "0 \<le> maxSuggestions (settings focusNotes)
   \<and> findMatches focusNotes ''F'' ''Today'' =
       [titleMatch (noteFile [] ''Focus Time''),
        \<lparr>title = ''focus'', tfile = noteFile [] ''Deep Work'', isAlias = True\<rparr>]
   \<and> length (findMatches focusNotes ''F'' ''Today'') \<le> nat (maxSuggestions (settings focusNotes))
   \<and> distinct (map tfile (findMatches focusNotes ''F'' ''Today''))
   \<and> prefix (normalizeKey False ''F'') (normalizeKey False ''Focus Time'')"
proof -
  have mx: "0 \<le> maxSuggestions (settings focusNotes)"
    by (simp add: focusNotes_eval DEFAULT_SETTINGS_def)
  have cs: "False = caseSensitive (settings focusNotes)"
    by (simp add: focusNotes_eval DEFAULT_SETTINGS_def)
  have s: "settings focusNotes = settings (initialState typingNote)"
    and ti: "noteTitles focusNotes = noteTitles (updateNoteList focusVault (initialState typingNote))"
    and al: "aliases focusNotes = aliases (updateNoteList focusVault (initialState typingNote))"
    by (simp_all add: focusNotes_def updateNoteList_def Let_def)
  from findMatches_properties [OF s ti al mx refl cs, of "''F''" "''Today''"]
  have "length (findMatches focusNotes ''F'' ''Today'') \<le> nat (maxSuggestions (settings focusNotes))"
    and "distinct (map tfile (findMatches focusNotes ''F'' ''Today''))"
    and "\<forall>m \<in> set (findMatches focusNotes ''F'' ''Today''). \<not> isAlias m \<longrightarrow>
            prefix (normalizeKey False ''F'') (normalizeKey False (basename (tfile m)))"
    by blast+
  with mx focusNotes_findMatches show ?thesis
    by (simp add: titleMatch_def noteFile_def)
qed

section \<open>Word completion at the edges\<close>

text \<open>
  White space between the completed word and the delimiter: the span that is replaced is
  as long as the trimmed word and ends at the delimiter, so it starts inside the word.
\<close>

lemma word_then_two_spaces:
  "getLine (handleEditorChange 1000 (Some (noteFile [] ''Today'')) twoSpaces) 0 = ''N[[Note]] ''"
proof -
  have c: "\<lparr>line = 0, ch = 6\<rparr> = getCursor twoSpaces"
    and l: "''Note  '' = getLine twoSpaces (line \<lparr>line = 0, ch = 6\<rparr>)"
    by (simp_all add: twoSpaces_def getCursor_def getLine_def)
  have b: "''Today'' = (case Some (noteFile [] ''Today'') of None \<Rightarrow> [] | Some f \<Rightarrow> basename f)"
    by (simp add: basename_noteFile)
  have st: "settings twoSpaces = DEFAULT_SETTINGS" "\<not> isAutoLinkDisabled twoSpaces"
    by (simp_all add: twoSpaces_def noteOnly_eval)
  have fm: "findMatches twoSpaces ''Note'' ''Today'' = [titleMatch (noteFile [] ''Note'')]"
    using findMatches_noteOnly by (simp add: findMatches_def twoSpaces_def)
  have m: "mode (settings twoSpaces) = autonomous \<or> mode (settings twoSpaces) = semiAutonomous"
    and lg: "minWordLength (settings twoSpaces) \<le> int (length (trim ''Note  ''))"
    by (simp_all add: st DEFAULT_SETTINGS_def string_eval_defs)
  have o: "\<not> isInsideLink ''Note  '' (ch \<lparr>line = 0, ch = 6\<rparr>)"
    and f: "matchFragment (take (ch \<lparr>line = 0, ch = 6\<rparr>) ''Note  '') = Some ''Note  ''"
    and t: "0 < ch \<lparr>line = 0, ch = 6\<rparr>"
      "charAt ''Note  '' (ch \<lparr>line = 0, ch = 6\<rparr> - 1) = Some (CHR '' '')"
      "isDelimiter (CHR '' '')"
    and w: "matchFragment (take (ch \<lparr>line = 0, ch = 6\<rparr> - 1) ''Note  '') = Some ''Note ''"
      "trim ''Note '' = ''Note''"
    by (simp_all add: string_eval_defs)
  from handleEditorChange_completion(3) [OF c l b m st(2) o f lg t refl, of 1000] w fm
  have "getLine (handleEditorChange 1000 (Some (noteFile [] ''Today'')) twoSpaces)
       (line \<lparr>line = 0, ch = 6\<rparr>) =
      take (ch \<lparr>line = 0, ch = 6\<rparr> - 1 - length ''Note'') ''Note  ''
        @ makeLink (titleMatch (noteFile [] ''Note'')) @ drop (ch \<lparr>line = 0, ch = 6\<rparr> - 1) ''Note  ''"
    by simp
  then show ?thesis by (simp add: makeLink_def titleMatch_def noteFile_def)
qed

text \<open>
  With case-insensitive matching the label of an alias link is the key of the alias
  index, the lower-cased alias.
\<close>

lemma alias_label_is_index_key:
  "findMatches aliasTyped ''Focus'' ''Today''
     = [\<lparr>title = ''focus'', tfile = noteFile [] ''Deep Work'', isAlias = True\<rparr>]"
  "makeLink \<lparr>title = ''focus'', tfile = noteFile [] ''Deep Work'', isAlias = True\<rparr>
     = ''[[Deep Work|focus]]''"
  by (simp_all add: aliasTyped_def updateNoteList_def getRelevantFiles_def DEFAULT_SETTINGS_def
      toLowerCase_def isUpper_def initialState_def noteFile_def findMatches_def sliceTo_def
      trim_def isSpace_def makeLink_def)

text \<open>
  The fragment the expression \<^verbatim>\<open>/[\w\s\-_]+$/\<close> finds is the longest suffix of the
  text that is made of fragment characters, and there is none when that suffix is empty.
\<close>

lemma matchFragment_longest_suffix:
  "(matchFragment s = Some m) =
     (m \<noteq> [] \<and> suffix m s \<and> (\<forall>c \<in> set m. isFragmentChar c) \<and>
      (\<forall>m'. suffix m' s \<and> (\<forall>c \<in> set m'. isFragmentChar c) \<longrightarrow> length m' \<le> length m))"
proof -
  define t where "t = rev (takeWhile isFragmentChar (rev s))"
  have "rev (dropWhile isFragmentChar (rev s)) @ t
      = rev (takeWhile isFragmentChar (rev s) @ dropWhile isFragmentChar (rev s))"
    by (simp only: t_def rev_append)
  also have "\<dots> = s"
    by (simp only: takeWhile_dropWhile_id rev_rev_ident)
  finally have "s = rev (dropWhile isFragmentChar (rev s)) @ t" by (rule sym)
  then have t_suf: "suffix t s" by (rule suffixI)
  have t_all: "\<forall>c \<in> set t. isFragmentChar c"
    by (auto simp: t_def dest: set_takeWhileD)
  have t_max: "length m' \<le> length t"
    if suf: "suffix m' s" and ok: "\<forall>c \<in> set m'. isFragmentChar c" for m'
  proof -
    from suf obtain zs where "s = zs @ m'" by (auto simp: suffix_def)
    then have "rev s = rev m' @ rev zs" by simp
    moreover have "takeWhile isFragmentChar (rev m' @ rev zs)
        = rev m' @ takeWhile isFragmentChar (rev zs)"
      using ok by (intro takeWhile_append2) simp
    ultimately have "takeWhile isFragmentChar (rev s) = rev m' @ takeWhile isFragmentChar (rev zs)"
      by simp
    then show ?thesis by (simp add: t_def)
  qed
  have mf: "matchFragment s = (if t = [] then None else Some t)"
    by (simp add: matchFragment_def t_def)
  show ?thesis
  proof
    assume "matchFragment s = Some m"
    with mf have "t \<noteq> []" "m = t" by (auto split: if_splits)
    with t_suf t_all t_max show "m \<noteq> [] \<and> suffix m s \<and> (\<forall>c \<in> set m. isFragmentChar c) \<and>
      (\<forall>m'. suffix m' s \<and> (\<forall>c \<in> set m'. isFragmentChar c) \<longrightarrow> length m' \<le> length m)"
      by simp
  next
    assume r: "m \<noteq> [] \<and> suffix m s \<and> (\<forall>c \<in> set m. isFragmentChar c) \<and>
      (\<forall>m'. suffix m' s \<and> (\<forall>c \<in> set m'. isFragmentChar c) \<longrightarrow> length m' \<le> length m)"
    then have le1: "length m \<le> length t" using t_max by simp
    from r t_suf t_all have le2: "length t \<le> length m" by simp
    from r have "suffix m s" by simp
    from t_suf this le2 have "suffix t m" by (rule suffix_length_suffix)
    moreover from \<open>suffix m s\<close> t_suf le1 have "suffix m t" by (rule suffix_length_suffix)
    ultimately have "m = t" by (simp add: suffix_order.antisym)
    with r mf show "matchFragment s = Some m" by simp
  qed
qed

text \<open>
  The no-break space is white space of \<^verbatim>\<open>\s\<close> and of \<^verbatim>\<open>trim()\<close>, and
  \<^verbatim>\<open>toLowerCase()\<close> folds the capital letters above U+00BF as well.
\<close>

lemma no_break_space:
  "isSpace (CHR 0xA0)" "isDelimiter (CHR 0xA0)" "trim (''Note'' @ [CHR 0xA0]) = ''Note''"
  "matchFragment (''Note'' @ [CHR 0xA0]) = Some (''Note'' @ [CHR 0xA0])"
  by (simp_all add: isSpace_def isDelimiter_def trim_def matchFragment_def isFragmentChar_def
      isWordChar_def)

lemma toLowerCase_capitals:
  "toLowerCase (''CAF'' @ [CHR 0xC9]) = ''caf'' @ [CHR 0xE9]"
  "toLowerCase [CHR 0xD7, CHR 0xDF, CHR 0xFF] = [CHR 0xD7, CHR 0xDF, CHR 0xFF]"
  "toLowerCase ''Project Plan_1'' = ''project plan_1''"
  by (simp_all add: toLowerCase_def isUpper_def)

text \<open>
  The column after a replacement at the end of the line: with the cursor at column 2, a
  typed text of 3 characters that is not before the cursor and a link of 5 characters,
  it is \<^verbatim>\<open>2 - 3 + 5\<close>.
\<close>

lemma acceptSuggestion_fallback_column:
  "getCursor (acceptSuggestion 1000 (titleMatch (noteFile [] ''N'')) ''xyz''
     (initialState \<lparr>lines = (\<lambda>n. if n = 0 then ''abcdefgh'' else []), cursor = \<lparr>line = 0, ch = 2\<rparr>\<rparr>))
   = \<lparr>line = 0, ch = 4\<rparr>"
  by (simp add: acceptSuggestion_def Let_def initialState_def getCursor_def getLine_def
      setLine_def setCursor_def undoPush_def undoShift_def closePopup_def makeLink_def titleMatch_def
      noteFile_def lastIndexOf_def replaceAtEnd_def toColumn_def)

lemma handleAutonomousMode_column:
  "getCursor (handleAutonomousMode 1000 ''xyz'' [titleMatch (noteFile [] ''N'')] \<lparr>line = 0, ch = 2\<rparr>
     (initialState \<lparr>lines = (\<lambda>n. if n = 0 then ''abcdefgh'' else []), cursor = \<lparr>line = 0, ch = 2\<rparr>\<rparr>))
   = \<lparr>line = 0, ch = 4\<rparr>"
  by (simp add: handleAutonomousMode_def Let_def initialState_def getCursor_def getLine_def
      setLine_def setCursor_def undoPush_def undoShift_def closePopup_def makeLink_def titleMatch_def
      noteFile_def replaceAtEnd_def toColumn_def)

text \<open>
  The link expression of the \<^verbatim>\<open>keydown\<close> handler matches a produced link whose target
  has no \<^verbatim>\<open>|\<close> and no \<^verbatim>\<open>]\<close> and whose label has no \<^verbatim>\<open>]\<close>, with the target as its
  first group.
\<close>

lemma matchLinkAt_makeLink:
  assumes b: "basename (tfile m) \<noteq> []"
    and bc: "\<forall>c \<in> set (basename (tfile m)). c \<noteq> CHR ''|'' \<and> c \<noteq> CHR '']''"
    and t: "isAlias m \<longrightarrow> title m \<noteq> [] \<and> CHR '']'' \<notin> set (title m)"
  shows "matchLinkAt (makeLink m @ post) = Some (length (makeLink m), basename (tfile m))"
proof (cases "isAlias m")
  case False
  have tw: "takeWhile (\<lambda>c. c \<noteq> CHR ''|'' \<and> c \<noteq> CHR '']'') (basename (tfile m) @ '']]'' @ post)
      = basename (tfile m)"
    and dw: "dropWhile (\<lambda>c. c \<noteq> CHR ''|'' \<and> c \<noteq> CHR '']'') (basename (tfile m) @ '']]'' @ post)
      = '']]'' @ post"
    using bc by simp_all
  from False b tw dw show ?thesis by (simp add: matchLinkAt_def makeLink_def Let_def)
next
  case True
  have tw: "takeWhile (\<lambda>c. c \<noteq> CHR ''|'' \<and> c \<noteq> CHR '']'')
        (basename (tfile m) @ ''|'' @ title m @ '']]'' @ post) = basename (tfile m)"
    and dw: "dropWhile (\<lambda>c. c \<noteq> CHR ''|'' \<and> c \<noteq> CHR '']'')
        (basename (tfile m) @ ''|'' @ title m @ '']]'' @ post) = ''|'' @ title m @ '']]'' @ post"
    using bc by simp_all
  have nt: "\<forall>c \<in> set (title m). c \<noteq> CHR '']''" using t True by auto
  have tw2: "takeWhile (\<lambda>c. c \<noteq> CHR '']'') (title m @ '']]'' @ post) = title m"
    and dw2: "dropWhile (\<lambda>c. c \<noteq> CHR '']'') (title m @ '']]'' @ post) = '']]'' @ post"
    using nt by simp_all
  from True b t tw dw tw2 dw2 show ?thesis
    by (simp add: matchLinkAt_def makeLink_def Let_def)
qed

end
